theory Spec2Isabelle
  imports Complex_Main "HOL-Library.Word"
begin

unbundle bit_operations_syntax

section \<open>Strings\<close>

text \<open>
  A JavaScript string is a sequence of UTF-16 code units: \<open>word.length\<close> counts code
  units and \<open>word[i]\<close> reads one. The regular expressions of the program carry no
  \<open>u\<close> flag, so their character classes test single code units as well.
  \<open>utf16\<close> writes an ASCII literal as such a sequence.
\<close>

type_synonym jsstring = "16 word list"

definition utf16 :: "string \<Rightarrow> jsstring" where
  "utf16 s = map (\<lambda>c. of_nat (of_char c)) s"

text \<open>The em dash U+2014, a single code unit.\<close>

definition emDash :: "16 word" where
  "emDash = 0x2014"

section \<open>Word unit: the recognition point (word-processor.ts)\<close>

text \<open>
  The character class of the loop in \<open>calculateORP\<close>, read off the source file code
  point by code point: \<open>. , ! ? ; : ' "\<close>, then the three characters U+00E2, U+20AC,
  U+201D, then \<open>-\<close>. (The three characters are what the UTF-8 bytes of an em dash
  give when decoded as Windows-1252; the em dash U+2014 itself is not in the class.)
\<close>

definition orpPunctuation :: "16 word \<Rightarrow> bool" where
  "orpPunctuation c \<longleftrightarrow>
     c \<in> {0x2E, 0x2C, 0x21, 0x3F, 0x3B, 0x3A, 0x27, 0x22, 0xE2, 0x20AC, 0x201D, 0x2D}"

text \<open>
  \<open>let len = word.length; while (len > 0 && /[...]/.test(word[len - 1])) len--;\<close>
  The loop only reads \<open>word[len - 1]\<close> with \<open>0 < len \<le> word.length\<close>.
\<close>

fun stripTrailing :: "jsstring \<Rightarrow> nat \<Rightarrow> nat" where
  "stripTrailing word 0 = 0"
| "stripTrailing word (Suc n) =
     (if orpPunctuation (word ! n) then stripTrailing word n else Suc n)"

definition calculateORP :: "jsstring \<Rightarrow> int" where
  "calculateORP word =
     (let len = stripTrailing word (length word)
      in if len \<le> 1 then 0
         else if len \<le> 3 then 1
         else int (len div 2) - 1)"

text \<open>
  The reference definition, following the specification's words: the fixed set
  \<open>. , ! ? ; : ' "\<close>, em dash, hyphen; \<open>L\<close> the length after stripping trailing members
  of the set; \<open>0\<close> when \<open>L \<le> 1\<close>, \<open>1\<close> when \<open>L \<le> 3\<close>, \<open>floor(L/2) - 1\<close> otherwise.
\<close>

definition specPunctuation :: "16 word \<Rightarrow> bool" where
  "specPunctuation c \<longleftrightarrow>
     c \<in> {0x2E, 0x2C, 0x21, 0x3F, 0x3B, 0x3A, 0x27, 0x22, emDash, 0x2D}"

definition effectiveLength :: "jsstring \<Rightarrow> nat" where
  "effectiveLength word = length (dropWhile specPunctuation (rev word))"

definition recognitionOffset_spec :: "jsstring \<Rightarrow> int" where
  "recognitionOffset_spec word =
     (let L = effectiveLength word
      in if L \<le> 1 then 0
         else if L \<le> 3 then 1
         else int (L div 2) - 1)"

section \<open>JavaScript numbers\<close>

text \<open>
  A JavaScript number is an IEEE 754 binary64 value, and every arithmetic operator
  rounds its exact result to the nearest such value, ties to the even significand.
  The model keeps the finite values as reals and writes the rounding out:
  \<open>binade x\<close> is the exponent of \<open>x\<close> (its floor logarithm, held at \<open>-1022\<close> in the
  subnormal range), \<open>ulp x\<close> the spacing of the 53-bit grid in that binade, and
  \<open>double x\<close> the grid point nearest to \<open>x\<close>. NaN, the infinities and the sign of zero
  are outside the model: the timing functions below divide only by a non-zero speed
  and their operands are far from the overflow threshold (strings hold fewer than
  \<open>2^53\<close> code units).
\<close>

definition binade :: "real \<Rightarrow> int" where
  "binade x = max \<lfloor>log 2 \<bar>x\<bar>\<rfloor> (- 1022)"

definition ulp :: "real \<Rightarrow> real" where
  "ulp x = 2 powr (of_int (binade x) - 52)"

definition roundHalfEven :: "real \<Rightarrow> int" where
  "roundHalfEven y =
     (let f = \<lfloor>y\<rfloor>
      in if y - of_int f < 1 / 2 then f
         else if y - of_int f > 1 / 2 then f + 1
         else if even f then f else f + 1)"

definition double :: "real \<Rightarrow> real" where
  "double x = of_int (roundHalfEven (x / ulp x)) * ulp x"

text \<open>The operators \<open>+\<close>, \<open>*\<close> and \<open>/\<close> on numbers.\<close>

definition js_add :: "real \<Rightarrow> real \<Rightarrow> real" where
  "js_add a b = double (a + b)"

definition js_mul :: "real \<Rightarrow> real \<Rightarrow> real" where
  "js_mul a b = double (a * b)"

definition js_div :: "real \<Rightarrow> real \<Rightarrow> real" where
  "js_div a b = double (a / b)"

section \<open>Word frequency buckets (wordlist.ts)\<close>

text \<open>
  The module variable \<open>wordRanks\<close> is \<open>null\<close> until the word list has been fetched,
  then a \<open>Map\<close> from a word to its 1-based rank; it is a parameter of the model, as an
  association list read with \<open>map_of\<close>. The built-in \<open>String.prototype.toLowerCase\<close>
  is a parameter as well. The loop over \<open>BUCKET_THRESHOLDS\<close> returns the multiplier of
  the first bucket whose \<open>maxRank\<close> is not below the rank.
\<close>

definition BUCKET_THRESHOLDS :: "(int \<times> real) list" where
  "BUCKET_THRESHOLDS = [(1000, 0), (3000, 0.25), (5000, 0.5), (10000, 0.75)]"

definition NOT_IN_LIST_MULTIPLIER :: real where
  "NOT_IN_LIST_MULTIPLIER = 1.0"

fun bucketFor :: "(int \<times> real) list \<Rightarrow> int \<Rightarrow> real" where
  "bucketFor [] rank = NOT_IN_LIST_MULTIPLIER"
| "bucketFor ((maxRank, multiplier) # buckets) rank =
     (if rank \<le> maxRank then multiplier else bucketFor buckets rank)"

definition isLowerAlpha :: "16 word \<Rightarrow> bool" where
  "isLowerAlpha c \<longleftrightarrow> 0x61 \<le> c \<and> c \<le> 0x7A"

definition getWordBucketMultiplier ::
  "(jsstring \<times> int) list option \<Rightarrow> (jsstring \<Rightarrow> jsstring) \<Rightarrow> jsstring \<Rightarrow> real" where
  "getWordBucketMultiplier wordRanks toLowerCase word =
     (case wordRanks of
        None \<Rightarrow> 0
      | Some ranks \<Rightarrow>
         if length ranks = 0 then 0
         else (let normalized = filter isLowerAlpha (toLowerCase word)
               in if length normalized = 0 then 0
                  else (case map_of ranks normalized of
                          None \<Rightarrow> NOT_IN_LIST_MULTIPLIER
                        | Some rank \<Rightarrow> bucketFor BUCKET_THRESHOLDS rank)))"

section \<open>Timing model (timing.ts)\<close>

record TimingSettings =
  lengthDelayEnabled :: bool
  lengthDelayFactor :: real
  frequencyDelayEnabled :: bool
  frequencyDelayFactor :: real

text \<open>
  The keys of \<open>PUNCTUATION_MULTIPLIERS\<close> are one-character strings; the em dash key is
  the code unit U+2014. \<open>word.slice(-1)\<close> is the last code unit as a string, or the
  empty string for the empty word, which is no key of the table.
\<close>

definition PUNCTUATION_MULTIPLIERS :: "(jsstring \<times> real) list" where
  "PUNCTUATION_MULTIPLIERS =
     [([0x2C], 0.75), ([0x3B], 0.75), ([0x3A], 0.75),
      ([0x2E], 1.5), ([0x21], 1.5), ([0x3F], 1.5),
      ([emDash], 1.0), ([0x2D], 0.25)]"

text \<open>A decimal literal such as \<open>0.1\<close> denotes the double nearest to it.\<close>

definition DEFAULT_TIMING_SETTINGS :: TimingSettings where
  "DEFAULT_TIMING_SETTINGS =
     \<lparr>lengthDelayEnabled = False, lengthDelayFactor = double (1 / 10),
      frequencyDelayEnabled = False, frequencyDelayFactor = double (3 / 10)\<rparr>"

definition calculateBaseInterval :: "real \<Rightarrow> real" where
  "calculateBaseInterval wpm = js_div 60000 wpm"

definition calculatePunctuationDelay :: "jsstring \<Rightarrow> real \<Rightarrow> real" where
  "calculatePunctuationDelay word baseInterval =
     (let lastChar = drop (length word - 1) word;
          multiplier = (case map_of PUNCTUATION_MULTIPLIERS lastChar of
                          Some m \<Rightarrow> m | None \<Rightarrow> 0)
      in js_mul baseInterval multiplier)"

text \<open>\<open>word.replace(/[^a-zA-Z0-9]/g, '')\<close> keeps the code units of the three ranges.\<close>

definition isAlphaNumeric :: "16 word \<Rightarrow> bool" where
  "isAlphaNumeric c \<longleftrightarrow>
     (0x61 \<le> c \<and> c \<le> 0x7A) \<or> (0x41 \<le> c \<and> c \<le> 0x5A) \<or> (0x30 \<le> c \<and> c \<le> 0x39)"

definition calculateLengthDelay :: "jsstring \<Rightarrow> real \<Rightarrow> real \<Rightarrow> real" where
  "calculateLengthDelay word baseInterval factor =
     (let stripped = filter isAlphaNumeric word;
          extraChars = int (length stripped) - 5
      in if extraChars \<le> 0 then 0
         else js_mul (js_mul (of_int extraChars) factor) baseInterval)"

definition calculateFrequencyDelay ::
  "(jsstring \<times> int) list option \<Rightarrow> (jsstring \<Rightarrow> jsstring) \<Rightarrow>
     jsstring \<Rightarrow> real \<Rightarrow> real \<Rightarrow> real" where
  "calculateFrequencyDelay wordRanks toLowerCase word baseInterval factor =
     (let bucketMultiplier = getWordBucketMultiplier wordRanks toLowerCase word
      in js_mul (js_mul bucketMultiplier factor) baseInterval)"

text \<open>
  \<open>totalDelay += d\<close> is \<open>totalDelay = totalDelay + d\<close>, one rounded addition for each
  component, in the order of the source.
\<close>

definition calculateTotalDelay ::
  "(jsstring \<times> int) list option \<Rightarrow> (jsstring \<Rightarrow> jsstring) \<Rightarrow>
     jsstring \<Rightarrow> real \<Rightarrow> TimingSettings \<Rightarrow> real" where
  "calculateTotalDelay wordRanks toLowerCase word wpm settings =
     (let baseInterval = calculateBaseInterval wpm;
          totalDelay = baseInterval;
          totalDelay = js_add totalDelay (calculatePunctuationDelay word baseInterval);
          totalDelay =
            (if lengthDelayEnabled settings
             then js_add totalDelay
                    (calculateLengthDelay word baseInterval (lengthDelayFactor settings))
             else totalDelay);
          totalDelay =
            (if frequencyDelayEnabled settings
             then js_add totalDelay
                    (calculateFrequencyDelay wordRanks toLowerCase word baseInterval
                       (frequencyDelayFactor settings))
             else totalDelay)
      in totalDelay)"

section \<open>Data model (types.ts)\<close>

text \<open>
  Indices and counts are JavaScript numbers holding integers; they are modelled as
  \<open>int\<close>. Reading an array outside its bounds yields \<open>undefined\<close> (\<open>js_at\<close> returns
  \<open>None\<close>); reading a property of \<open>undefined\<close> throws a \<open>TypeError\<close>, which the
  model returns as \<open>Inl TypeError\<close>.
\<close>

datatype js_error = TypeError

definition js_at :: "'a list \<Rightarrow> int \<Rightarrow> 'a option" where
  "js_at xs i = (if 0 \<le> i \<and> i < int (length xs) then Some (xs ! nat i) else None)"

record ReadingPosition =
  chapterIndex :: int
  paragraphIndex :: int
  wordIndex :: int

record ProcessedWord =
  "text" :: jsstring
  orpIndex :: int
  delay :: int

record Paragraph =
  words :: "ProcessedWord list"
  sourceElement :: jsstring

record Chapter =
  index :: int
  title :: jsstring
  paragraphs :: "Paragraph list"

record ProcessedBook =
  title :: jsstring
  author :: jsstring
  chapters :: "Chapter list"

datatype RSVPStatus = Idle | Loading | Ready | Playing | Paused

datatype ViewMode = RsvpView | ParagraphView

record CurrentWordInfo =
  word :: ProcessedWord
  position :: ReadingPosition
  totalWordsInParagraph :: int
  totalParagraphsInChapter :: int
  totalChapters :: int
  chapterTitle :: jsstring

text \<open>
  The validity invariant of a position relative to a book, as the data model states
  it: each index lies within the sequence it indexes.
\<close>

definition validPosition :: "ProcessedBook \<Rightarrow> ReadingPosition \<Rightarrow> bool" where
  "validPosition b pos \<longleftrightarrow>
     0 \<le> chapterIndex pos \<and> chapterIndex pos < int (length (chapters b)) \<and>
     0 \<le> paragraphIndex pos \<and>
     paragraphIndex pos < int (length (paragraphs (chapters b ! nat (chapterIndex pos)))) \<and>
     0 \<le> wordIndex pos \<and>
     wordIndex pos < int (length (words
        (paragraphs (chapters b ! nat (chapterIndex pos)) ! nat (paragraphIndex pos))))"

section \<open>Clamping a restored position (App.clampPosition)\<close>

text \<open>
  \<open>while (chapter.paragraphs.length === 0 && chapterIndex > 0)
  { chapterIndex--; chapter = book.chapters[chapterIndex]; }\<close>
  The loop condition reads \<open>chapter.paragraphs\<close>, which throws when \<open>chapter\<close> is
  \<open>undefined\<close>.
\<close>

function clampWalkBack :: "Chapter list \<Rightarrow> int \<Rightarrow> Chapter \<Rightarrow> js_error + (int \<times> Chapter)" where
  "clampWalkBack chs i chapter =
     (if length (paragraphs chapter) = 0 \<and> i > 0
      then (case js_at chs (i - 1) of
              None \<Rightarrow> Inl TypeError
            | Some chapter' \<Rightarrow> clampWalkBack chs (i - 1) chapter')
      else Inr (i, chapter))"
  by pat_completeness auto
termination
  by (relation "measure (\<lambda>(chs, i, chapter). nat i)") auto

text \<open>
  With no chapter at all, \<open>book.chapters[0]\<close> is \<open>undefined\<close> and the first test of the
  loop throws. The conditional \<open>paragraph ? ... : 0\<close> tests whether the paragraph read
  is \<open>undefined\<close>.
\<close>

definition clampPosition :: "ProcessedBook \<Rightarrow> ReadingPosition \<Rightarrow> js_error + ReadingPosition" where
  "clampPosition book pos =
     (let chapterIndex0 = max 0 (min (chapterIndex pos) (int (length (chapters book)) - 1))
      in case js_at (chapters book) chapterIndex0 of
           None \<Rightarrow> Inl TypeError
         | Some chapter0 \<Rightarrow>
            (case clampWalkBack (chapters book) chapterIndex0 chapter0 of
               Inl e \<Rightarrow> Inl e
             | Inr (chapterIndex1, chapter) \<Rightarrow>
                 let paragraphIndex1 = max 0 (min (paragraphIndex pos)
                        (max 0 (int (length (paragraphs chapter)) - 1)));
                     paragraph = js_at (paragraphs chapter) paragraphIndex1;
                     wordIndex1 = (case paragraph of
                         Some par \<Rightarrow> max 0 (min (wordIndex pos)
                                      (max 0 (int (length (words par)) - 1)))
                       | None \<Rightarrow> 0)
                 in Inr \<lparr>chapterIndex = chapterIndex1, paragraphIndex = paragraphIndex1,
                          wordIndex = wordIndex1\<rparr>))"

section \<open>Playback engine (engine.ts)\<close>

text \<open>
  The class \<open>RSVPEngine\<close> holds the playback state (\<open>status\<close>, \<open>position\<close>, \<open>wpm\<close>,
  \<open>book\<close>, \<open>viewMode\<close>), the handle \<open>timerId\<close> of the scheduled continuation and the
  settings getter; the record below holds them side by side. A getter is modelled by
  the settings it returns. Three more fields stand for the engine's surroundings:
  \<^item> \<open>timeouts\<close>, the handles of the continuations the window still holds
    (\<open>setTimeout\<close> adds a fresh handle, \<open>clearTimeout\<close> and firing remove it), and
    \<open>nextHandle\<close>, the next handle the window gives out;
  \<^item> \<open>emitted\<close>, the notifications delivered so far, in order. Each \<open>forEach\<close> over a
    listener set delivers one datum to every subscriber of that channel, and is
    recorded as one entry. Listeners are taken not to call back into the engine.
\<close>

datatype notification =
    WordChange "CurrentWordInfo option"
  | StatusChange RSVPStatus
  | ViewModeChange ViewMode

record RSVPEngine =
  status :: RSVPStatus
  position :: ReadingPosition
  wpm :: real
  book :: "ProcessedBook option"
  viewMode :: ViewMode
  timerId :: "nat option"
  timingSettingsGetter :: "TimingSettings option"
  timeouts :: "nat set"
  nextHandle :: nat
  emitted :: "notification list"

definition DEFAULT_WPM :: real where
  "DEFAULT_WPM = 300"

definition newEngine :: RSVPEngine where
  "newEngine =
     \<lparr>status = Idle,
      position = \<lparr>chapterIndex = 0, paragraphIndex = 0, wordIndex = 0\<rparr>,
      wpm = DEFAULT_WPM,
      book = None,
      viewMode = RsvpView,
      timerId = None,
      timingSettingsGetter = None,
      timeouts = {},
      nextHandle = 1,
      emitted = []\<rparr>"

definition setStatus :: "RSVPEngine \<Rightarrow> RSVPStatus \<Rightarrow> RSVPEngine" where
  "setStatus s st = s\<lparr>status := st, emitted := emitted s @ [StatusChange st]\<rparr>"

definition getCurrentWordInfo :: "RSVPEngine \<Rightarrow> CurrentWordInfo option" where
  "getCurrentWordInfo s =
     (case book s of
        None \<Rightarrow> None
      | Some b \<Rightarrow>
         (case js_at (chapters b) (chapterIndex (position s)) of
            None \<Rightarrow> None
          | Some chapter \<Rightarrow>
             (case js_at (paragraphs chapter) (paragraphIndex (position s)) of
                None \<Rightarrow> None
              | Some paragraph \<Rightarrow>
                 (case js_at (words paragraph) (wordIndex (position s)) of
                    None \<Rightarrow> None
                  | Some w \<Rightarrow>
                     Some \<lparr>word = w,
                           CurrentWordInfo.position = position s,
                           totalWordsInParagraph = int (length (words paragraph)),
                           totalParagraphsInChapter = int (length (paragraphs chapter)),
                           totalChapters = int (length (chapters b)),
                           chapterTitle = Chapter.title chapter\<rparr>))))"

definition notifyWordChange :: "RSVPEngine \<Rightarrow> RSVPEngine" where
  "notifyWordChange s = s\<lparr>emitted := emitted s @ [WordChange (getCurrentWordInfo s)]\<rparr>"

definition getCurrentWord :: "RSVPEngine \<Rightarrow> ProcessedWord option" where
  "getCurrentWord s =
     (case book s of
        None \<Rightarrow> None
      | Some b \<Rightarrow>
         (case js_at (chapters b) (chapterIndex (position s)) of
            None \<Rightarrow> None
          | Some chapter \<Rightarrow>
             (case js_at (paragraphs chapter) (paragraphIndex (position s)) of
                None \<Rightarrow> None
              | Some paragraph \<Rightarrow> js_at (words paragraph) (wordIndex (position s)))))"

definition pause :: "RSVPEngine \<Rightarrow> RSVPEngine" where
  "pause s =
     (let s1 = (case timerId s of
                  Some t \<Rightarrow> s\<lparr>timeouts := timeouts s - {t}, timerId := None\<rparr>
                | None \<Rightarrow> s)
      in if status s1 = Playing then setStatus s1 Paused else s1)"

definition getTimingSettings :: "RSVPEngine \<Rightarrow> TimingSettings" where
  "getTimingSettings s =
     (case timingSettingsGetter s of Some settings \<Rightarrow> settings | None \<Rightarrow> DEFAULT_TIMING_SETTINGS)"

text \<open>
  \<open>scheduleNext\<close> computes \<open>calculateTotalDelay(word.text, wpm, settings)\<close> and passes
  it to \<open>window.setTimeout\<close> (\<open>scheduledDelay\<close> is that argument). The delay decides
  when the window fires the continuation, not whether or what it runs; the model
  records the pending handle and leaves the moment of firing open (\<open>timerFired\<close>
  below is the continuation).
\<close>

definition scheduledDelay ::
  "(jsstring \<times> int) list option \<Rightarrow> (jsstring \<Rightarrow> jsstring) \<Rightarrow> RSVPEngine \<Rightarrow> real option" where
  "scheduledDelay wordRanks toLowerCase s =
     (case getCurrentWord s of
        None \<Rightarrow> None
      | Some w \<Rightarrow>
          Some (calculateTotalDelay wordRanks toLowerCase (text w) (wpm s)
                  (getTimingSettings s)))"

definition scheduleNext :: "RSVPEngine \<Rightarrow> RSVPEngine" where
  "scheduleNext s =
     (if status s \<noteq> Playing then s
      else case getCurrentWord s of
             None \<Rightarrow> pause s
           | Some w \<Rightarrow>
               s\<lparr>timerId := Some (nextHandle s),
                 timeouts := insert (nextHandle s) (timeouts s),
                 nextHandle := Suc (nextHandle s)\<rparr>)"

definition loadBook :: "RSVPEngine \<Rightarrow> ProcessedBook \<Rightarrow> RSVPEngine" where
  "loadBook s b =
     notifyWordChange
       (setStatus
          ((pause s)\<lparr>book := Some b,
                     position := \<lparr>chapterIndex = 0, paragraphIndex = 0, wordIndex = 0\<rparr>\<rparr>)
          Ready)"

definition play :: "RSVPEngine \<Rightarrow> RSVPEngine" where
  "play s =
     (if status s \<noteq> Ready \<and> status s \<noteq> Paused then s
      else scheduleNext (setStatus s Playing))"

definition toggle :: "RSVPEngine \<Rightarrow> RSVPEngine" where
  "toggle s = (if status s = Playing then pause s else play s)"

definition advance :: "RSVPEngine \<Rightarrow> RSVPEngine" where
  "advance s =
     (case book s of
        None \<Rightarrow> s
      | Some b \<Rightarrow>
         (case js_at (chapters b) (chapterIndex (position s)) of
            None \<Rightarrow> s
          | Some chapter \<Rightarrow>
             (case js_at (paragraphs chapter) (paragraphIndex (position s)) of
                None \<Rightarrow> s
              | Some paragraph \<Rightarrow>
                 if wordIndex (position s) + 1 < int (length (words paragraph))
                 then s\<lparr>position := (position s)\<lparr>wordIndex := wordIndex (position s) + 1\<rparr>\<rparr>
                 else if paragraphIndex (position s) + 1 < int (length (paragraphs chapter))
                 then s\<lparr>position := (position s)
                          \<lparr>paragraphIndex := paragraphIndex (position s) + 1, wordIndex := 0\<rparr>\<rparr>
                 else if chapterIndex (position s) + 1 < int (length (chapters b))
                 then s\<lparr>position := (position s)
                          \<lparr>chapterIndex := chapterIndex (position s) + 1,
                           paragraphIndex := 0, wordIndex := 0\<rparr>\<rparr>
                 else pause s)))"

text \<open>
  \<open>retreat\<close> reads \<open>newParagraph.words\<close> and \<open>newChapter.paragraphs\<close> without a
  guard, so each read of a missing chapter or paragraph is a thrown \<open>TypeError\<close>.
  (The source has decremented an index in place by then; the model returns the error
  alone.)
\<close>

definition retreat :: "RSVPEngine \<Rightarrow> js_error + RSVPEngine" where
  "retreat s =
     (case book s of
        None \<Rightarrow> Inr s
      | Some b \<Rightarrow>
         if wordIndex (position s) > 0
         then Inr (s\<lparr>position := (position s)\<lparr>wordIndex := wordIndex (position s) - 1\<rparr>\<rparr>)
         else if paragraphIndex (position s) > 0
         then (case js_at (chapters b) (chapterIndex (position s)) of
                 None \<Rightarrow> Inl TypeError
               | Some chapter \<Rightarrow>
                  (case js_at (paragraphs chapter) (paragraphIndex (position s) - 1) of
                     None \<Rightarrow> Inl TypeError
                   | Some newParagraph \<Rightarrow>
                       Inr (s\<lparr>position := (position s)
                              \<lparr>paragraphIndex := paragraphIndex (position s) - 1,
                               wordIndex := max 0 (int (length (words newParagraph)) - 1)\<rparr>\<rparr>)))
         else if chapterIndex (position s) > 0
         then (case js_at (chapters b) (chapterIndex (position s) - 1) of
                 None \<Rightarrow> Inl TypeError
               | Some newChapter \<Rightarrow>
                  (let p = max 0 (int (length (paragraphs newChapter)) - 1)
                   in case js_at (paragraphs newChapter) p of
                        None \<Rightarrow> Inl TypeError
                      | Some newParagraph \<Rightarrow>
                          Inr (s\<lparr>position :=
                                 \<lparr>chapterIndex = chapterIndex (position s) - 1,
                                  paragraphIndex = p,
                                  wordIndex = max 0 (int (length (words newParagraph)) - 1)\<rparr>\<rparr>)))
         else Inr s)"

definition nextWord :: "RSVPEngine \<Rightarrow> RSVPEngine" where
  "nextWord s = (case book s of None \<Rightarrow> s | Some b \<Rightarrow> notifyWordChange (advance s))"

definition prevWord :: "RSVPEngine \<Rightarrow> js_error + RSVPEngine" where
  "prevWord s =
     (case book s of
        None \<Rightarrow> Inr s
      | Some b \<Rightarrow> (case retreat s of Inl e \<Rightarrow> Inl e | Inr s' \<Rightarrow> Inr (notifyWordChange s')))"

definition restartParagraph :: "RSVPEngine \<Rightarrow> RSVPEngine" where
  "restartParagraph s = notifyWordChange (s\<lparr>position := (position s)\<lparr>wordIndex := 0\<rparr>\<rparr>)"

definition goToChapter :: "RSVPEngine \<Rightarrow> int \<Rightarrow> RSVPEngine" where
  "goToChapter s i =
     (case book s of
        None \<Rightarrow> s
      | Some b \<Rightarrow>
         if i < 0 \<or> i \<ge> int (length (chapters b)) then s
         else notifyWordChange
                (s\<lparr>position := \<lparr>chapterIndex = i, paragraphIndex = 0, wordIndex = 0\<rparr>\<rparr>))"

definition nextChapter :: "RSVPEngine \<Rightarrow> RSVPEngine" where
  "nextChapter s =
     (case book s of
        None \<Rightarrow> s
      | Some b \<Rightarrow>
         (let next = chapterIndex (position s) + 1
          in if next < int (length (chapters b)) then goToChapter s next else s))"

definition prevChapter :: "RSVPEngine \<Rightarrow> RSVPEngine" where
  "prevChapter s =
     (let prev = chapterIndex (position s) - 1
      in if prev \<ge> 0 then goToChapter s prev else s)"

definition setWPM :: "RSVPEngine \<Rightarrow> real \<Rightarrow> RSVPEngine" where
  "setWPM s n = s\<lparr>wpm := n\<rparr>"

definition setViewMode :: "RSVPEngine \<Rightarrow> ViewMode \<Rightarrow> RSVPEngine" where
  "setViewMode s mode =
     (if viewMode s = mode then s
      else (let s1 = (if mode = ParagraphView then pause s else s)
            in s1\<lparr>viewMode := mode, emitted := emitted s1 @ [ViewModeChange mode]\<rparr>))"

definition toggleViewMode :: "RSVPEngine \<Rightarrow> RSVPEngine" where
  "toggleViewMode s = setViewMode s (if viewMode s = RsvpView then ParagraphView else RsvpView)"

definition setPosition :: "RSVPEngine \<Rightarrow> ReadingPosition \<Rightarrow> RSVPEngine" where
  "setPosition s pos =
     (case book s of
        None \<Rightarrow> s
      | Some b \<Rightarrow>
         if chapterIndex pos < 0 \<or> chapterIndex pos \<ge> int (length (chapters b)) then s
         else (let chapter = chapters b ! nat (chapterIndex pos)
               in if paragraphIndex pos < 0 \<or>
                     paragraphIndex pos \<ge> int (length (paragraphs chapter)) then s
                  else (let paragraph = paragraphs chapter ! nat (paragraphIndex pos)
                        in if wordIndex pos < 0 \<or>
                              wordIndex pos \<ge> int (length (words paragraph)) then s
                           else notifyWordChange
                                  (s\<lparr>position :=
                                      \<lparr>chapterIndex = chapterIndex pos,
                                       paragraphIndex = paragraphIndex pos,
                                       wordIndex = wordIndex pos\<rparr>\<rparr>))))"

text \<open>
  The continuation \<open>() => { this.advance(); this.notifyWordChange(); this.scheduleNext(); }\<close>
  run by the window when the pending handle \<open>h\<close> fires; a cleared handle never fires.
\<close>

definition timerFired :: "RSVPEngine \<Rightarrow> nat \<Rightarrow> RSVPEngine" where
  "timerFired s h =
     (if h \<in> timeouts s
      then scheduleNext (notifyWordChange (advance (s\<lparr>timeouts := timeouts s - {h}\<rparr>)))
      else s)"

text \<open>The public operations of the engine that the position invariant is stated for.\<close>

datatype operation =
    LoadBook ProcessedBook
  | Play
  | Pause
  | NextWord
  | PrevWord
  | RestartParagraph
  | GoToChapter int
  | NextChapter
  | PrevChapter
  | SetPosition ReadingPosition
  | SetViewMode ViewMode

fun call :: "RSVPEngine \<Rightarrow> operation \<Rightarrow> js_error + RSVPEngine" where
  "call s (LoadBook b) = Inr (loadBook s b)"
| "call s Play = Inr (play s)"
| "call s Pause = Inr (pause s)"
| "call s NextWord = Inr (nextWord s)"
| "call s PrevWord = prevWord s"
| "call s RestartParagraph = Inr (restartParagraph s)"
| "call s (GoToChapter i) = Inr (goToChapter s i)"
| "call s NextChapter = Inr (nextChapter s)"
| "call s PrevChapter = Inr (prevChapter s)"
| "call s (SetPosition pos) = Inr (setPosition s pos)"
| "call s (SetViewMode mode) = Inr (setViewMode s mode)"


section \<open>Books and states used in the statements\<close>

text \<open>
  A book is non-degenerate when it has at least one chapter, every chapter has at
  least one paragraph and every paragraph has at least one word. \<open>bookAfter\<close> is the
  book an operation leaves loaded.
\<close>

definition nonDegenerate :: "ProcessedBook \<Rightarrow> bool" where
  "nonDegenerate b \<longleftrightarrow>
     chapters b \<noteq> [] \<and>
     (\<forall>chapter \<in> set (chapters b).
        paragraphs chapter \<noteq> [] \<and>
        (\<forall>paragraph \<in> set (paragraphs chapter). words paragraph \<noteq> []))"

definition bookAfter :: "ProcessedBook \<Rightarrow> operation \<Rightarrow> ProcessedBook" where
  "bookAfter b op = (case op of LoadBook b' \<Rightarrow> b' | _ \<Rightarrow> b)"

text \<open>
  The operations that can carry the position into another paragraph or chapter; the
  others keep the indices, reset the word index within the paragraph, or take a
  position only after checking it.
\<close>

fun crossesContainers :: "operation \<Rightarrow> bool" where
  "crossesContainers (LoadBook b) = True"
| "crossesContainers NextWord = True"
| "crossesContainers PrevWord = True"
| "crossesContainers (GoToChapter i) = True"
| "crossesContainers NextChapter = True"
| "crossesContainers PrevChapter = True"
| "crossesContainers op = False"

definition someWord :: ProcessedWord where
  "someWord = \<lparr>text = [0x61], orpIndex = 0, delay = 0\<rparr>"

definition oneWordParagraph :: Paragraph where
  "oneWordParagraph = \<lparr>words = [someWord], sourceElement = [0x70]\<rparr>"

definition twoWordParagraph :: Paragraph where
  "twoWordParagraph = \<lparr>words = [someWord, someWord], sourceElement = [0x70]\<rparr>"

definition emptyChapter :: Chapter where
  "emptyChapter = \<lparr>index = 0, Chapter.title = [], paragraphs = []\<rparr>"

definition plainChapter :: Chapter where
  "plainChapter = \<lparr>index = 1, Chapter.title = [], paragraphs = [oneWordParagraph]\<rparr>"


definition openingChapter :: Chapter where
  "openingChapter = \<lparr>index = 0, Chapter.title = [], paragraphs = [twoWordParagraph]\<rparr>"

text \<open>
  \<open>storyBook\<close> is non-degenerate. \<open>gapBook\<close> opens with a chapter without paragraphs
  and \<open>trailingGapBook\<close> ends with one.
\<close>

definition storyBook :: ProcessedBook where
  "storyBook = \<lparr>title = [], author = [], chapters = [openingChapter, plainChapter]\<rparr>"

definition gapBook :: ProcessedBook where
  "gapBook = \<lparr>title = [], author = [], chapters = [emptyChapter, plainChapter]\<rparr>"

definition trailingGapBook :: ProcessedBook where
  "trailingGapBook = \<lparr>title = [], author = [], chapters = [plainChapter, emptyChapter]\<rparr>"

text \<open>
  The end of the book: the position is in the last chapter, in its last paragraph, and
  no word of that paragraph follows the current one.
\<close>

definition atEndOfBook :: "ProcessedBook \<Rightarrow> ReadingPosition \<Rightarrow> bool" where
  "atEndOfBook b pos \<longleftrightarrow>
     0 \<le> chapterIndex pos \<and> chapterIndex pos = int (length (chapters b)) - 1 \<and>
     0 \<le> paragraphIndex pos \<and>
     paragraphIndex pos
       = int (length (paragraphs (chapters b ! nat (chapterIndex pos)))) - 1 \<and>
     int (length (words
        (paragraphs (chapters b ! nat (chapterIndex pos)) ! nat (paragraphIndex pos))))
       \<le> wordIndex pos + 1"

text \<open>
  Two engines playing \<open>storyBook\<close> with one continuation scheduled: one at the first
  word of the book, one at its last word.
\<close>

definition playingStory :: RSVPEngine where
  "playingStory = play (loadBook newEngine storyBook)"

definition playingLastWord :: RSVPEngine where
  "playingLastWord = play (goToChapter (loadBook newEngine storyBook) 1)"

section \<open>Properties of the word unit\<close>

lemma stripTrailing_le: "stripTrailing w n \<le> n"
  by (induction n) auto

text \<open>
  The loop computes the length left after dropping trailing members of its class.
  On a word without an em dash and without the three characters that stand in its
  place, \<open>calculateORP\<close> is the reference definition.
\<close>

lemma stripTrailing_dropWhile:
  "n \<le> length w \<Longrightarrow>
   stripTrailing w n = length (dropWhile orpPunctuation (rev (take n w)))"
proof (induction n)
  case 0
  show ?case by simp
next
  case (Suc n)
  then have "take (Suc n) w = take n w @ [w ! n]"
    by (simp add: take_Suc_conv_app_nth)
  with Suc show ?case by simp
qed

lemma calculateORP_agrees_without_dash:
  assumes "\<forall>c \<in> set w. c \<notin> {emDash, 0xE2, 0x20AC, 0x201D}"
  shows "calculateORP w = recognitionOffset_spec w"
proof -
  have same: "orpPunctuation c \<longleftrightarrow> specPunctuation c" if "c \<in> set w" for c
    using assms that by (auto simp: orpPunctuation_def specPunctuation_def)
  have "dropWhile orpPunctuation (rev w) = dropWhile specPunctuation (rev w)"
    by (rule dropWhile_cong) (simp_all add: same)
  then have "stripTrailing w (length w) = effectiveLength w"
    by (simp add: stripTrailing_dropWhile effectiveLength_def)
  then show ?thesis by (simp add: calculateORP_def recognitionOffset_spec_def)
qed

text \<open>
  Claim C5, evaluated on the code: for the two-unit word \<open>a\<close> followed by an em dash,
  the reference definition excludes the em dash (\<open>L = 1\<close>, offset \<open>0\<close>) while
  \<open>calculateORP\<close> keeps it (length \<open>2\<close>, offset \<open>1\<close>).
\<close>

theorem calculateORP_em_dash_kept:
  "calculateORP (utf16 ''a'' @ [emDash]) = 1 \<and>
   recognitionOffset_spec (utf16 ''a'' @ [emDash]) = 0"
  by (simp add: calculateORP_def recognitionOffset_spec_def effectiveLength_def
      utf16_def emDash_def orpPunctuation_def specPunctuation_def)

text \<open>
  Claim C10: for every non-empty word text, \<open>calculateORP\<close> returns an offset \<open>i\<close>
  with \<open>0 \<le> i < text.length\<close>, a valid index into the original text.
\<close>

theorem calculateORP_in_bounds:
  "w \<noteq> [] \<Longrightarrow> 0 \<le> calculateORP w \<and> calculateORP w < int (length w)"
proof -
  assume nonempty: "w \<noteq> []"
  define len where "len = stripTrailing w (length w)"
  have le: "len \<le> length w"
    unfolding len_def by (rule stripTrailing_le)
  from nonempty have pos: "0 < length w" by simp
  have orp: "calculateORP w =
      (if len \<le> 1 then 0 else if len \<le> 3 then 1 else int (len div 2) - 1)"
    by (simp add: calculateORP_def len_def)
  show ?thesis
  proof (cases "len \<le> 1")
    case True
    with orp pos show ?thesis by simp
  next
    case False
    note big = this
    show ?thesis
    proof (cases "len \<le> 3")
      case True
      with big orp le show ?thesis by simp
    next
      case False
      with orp le show ?thesis by simp
    qed
  qed
qed

theorem calculateORP_in_bounds_witness:
  "utf16 ''wonderful,'' \<noteq> [] \<and> 0 \<le> calculateORP (utf16 ''wonderful,'') \<and>
   calculateORP (utf16 ''wonderful,'') < int (length (utf16 ''wonderful,'')) \<and>
   calculateORP (utf16 ''wonderful,'') = 3"
  using calculateORP_in_bounds [of "utf16 ''wonderful,''"]
  by (simp add: calculateORP_def utf16_def orpPunctuation_def)

section \<open>Rounding to a double\<close>

lemma roundHalfEven_of_int: "roundHalfEven (of_int n) = n"
  by (simp add: roundHalfEven_def)

lemma roundHalfEven_mono: "y \<le> z \<Longrightarrow> roundHalfEven y \<le> roundHalfEven z"
proof -
  assume yz: "y \<le> z"
  then have fl: "\<lfloor>y\<rfloor> \<le> \<lfloor>z\<rfloor>" by (rule floor_mono)
  show ?thesis
  proof (cases "\<lfloor>y\<rfloor> = \<lfloor>z\<rfloor>")
    case True
    with yz show ?thesis
      by (auto simp: roundHalfEven_def Let_def)
  next
    case False
    with fl have "\<lfloor>y\<rfloor> + 1 \<le> \<lfloor>z\<rfloor>" by simp
    moreover have "roundHalfEven y \<le> \<lfloor>y\<rfloor> + 1"
      by (simp add: roundHalfEven_def Let_def)
    moreover have "\<lfloor>z\<rfloor> \<le> roundHalfEven z"
      by (simp add: roundHalfEven_def Let_def)
    ultimately show ?thesis by linarith
  qed
qed

lemma roundHalfEven_ge: "of_int n \<le> z \<Longrightarrow> n \<le> roundHalfEven z"
  using roundHalfEven_mono [of "of_int n" z] by (simp add: roundHalfEven_of_int)

lemma roundHalfEven_le: "z \<le> of_int n \<Longrightarrow> roundHalfEven z \<le> n"
  using roundHalfEven_mono [of z "of_int n"] by (simp add: roundHalfEven_of_int)

lemma ulp_pos: "0 < ulp x"
  by (simp add: ulp_def)

lemma double_0: "double 0 = 0"
  by (simp add: double_def roundHalfEven_def)

lemma double_nonneg: "0 \<le> x \<Longrightarrow> 0 \<le> double x"
proof -
  assume "0 \<le> x"
  then have "of_int 0 \<le> x / ulp x" using ulp_pos [of x] by simp
  then have "0 \<le> roundHalfEven (x / ulp x)" by (rule roundHalfEven_ge)
  then show ?thesis using ulp_pos [of x] by (simp add: double_def)
qed

text \<open>A positive number lies below the top of its binade, and, unless subnormal, above its bottom.\<close>

lemma below_binade_top: "0 < x \<Longrightarrow> x < 2 powr (of_int (binade x) + 1)"
proof -
  assume pos: "0 < x"
  have "log 2 x < of_int \<lfloor>log 2 x\<rfloor> + 1" by linarith
  also have "\<dots> \<le> of_int (binade x) + 1" using pos by (simp add: binade_def)
  finally have "log 2 x < of_int (binade x) + 1" .
  then have "2 powr (log 2 x) < 2 powr (of_int (binade x) + 1)" by simp
  with pos show ?thesis by simp
qed

lemma above_binade_bottom: "0 < x \<Longrightarrow> - 1022 < binade x \<Longrightarrow> 2 powr (of_int (binade x)) \<le> x"
proof -
  assume pos: "0 < x" and normal: "- 1022 < binade x"
  then have "binade x = \<lfloor>log 2 x\<rfloor>" by (simp add: binade_def max_def split: if_splits)
  then have "of_int (binade x) \<le> log 2 x" by simp
  then have "2 powr (of_int (binade x)) \<le> 2 powr (log 2 x)" by simp
  with pos show ?thesis by simp
qed

lemma binade_eqI:
  "2 powr (of_int k) \<le> x \<Longrightarrow> x < 2 powr (of_int k + 1) \<Longrightarrow> - 1022 \<le> k \<Longrightarrow> binade x = k"
proof -
  assume lo: "2 powr (of_int k) \<le> x" and hi: "x < 2 powr (of_int k + 1)" and k: "- 1022 \<le> k"
  have pos: "0 < x" using lo by (smt (verit) powr_gt_zero)
  have "\<lfloor>log 2 x\<rfloor> = k"
    using lo hi pos by (simp add: floor_log_eq_powr_iff)
  with pos k show ?thesis by (simp add: binade_def)
qed

lemma binade_subnormalI: "0 < x \<Longrightarrow> x < 2 powr (- 1021) \<Longrightarrow> binade x = - 1022"
proof -
  assume pos: "0 < x" and hi: "x < 2 powr (- 1021)"
  have "log 2 x < - 1021" using pos hi
    by (metis log_less_iff one_less_numeral_iff semiring_norm(76))
  then have "\<lfloor>log 2 x\<rfloor> \<le> - 1022" by (simp add: floor_le_iff)
  with pos show ?thesis by (simp add: binade_def)
qed

lemma binade_mono: "0 < x \<Longrightarrow> x \<le> y \<Longrightarrow> binade x \<le> binade y"
proof -
  assume "0 < x" "x \<le> y"
  then have "log 2 x \<le> log 2 y" by simp
  then have "\<lfloor>log 2 x\<rfloor> \<le> \<lfloor>log 2 y\<rfloor>" by (rule floor_mono)
  with \<open>0 < x\<close> \<open>x \<le> y\<close> show ?thesis by (simp add: binade_def)
qed

text \<open>The significand of a rounded positive number.\<close>

lemma ulp_top: "2 ^ 53 * ulp x = 2 powr (of_int (binade x) + 1)"
proof -
  have "(2::real) powr 53 * 2 powr (of_int (binade x) - 52) = 2 powr (53 + (of_int (binade x) - 52))"
    by (simp only: powr_add)
  then show ?thesis by (simp add: ulp_def add.commute)
qed

lemma ulp_bottom: "2 ^ 52 * ulp x = 2 powr (of_int (binade x))"
proof -
  have "(2::real) powr 52 * 2 powr (of_int (binade x) - 52) = 2 powr (52 + (of_int (binade x) - 52))"
    by (simp only: powr_add)
  then show ?thesis by (simp add: ulp_def)
qed

lemma significand_le: "0 < x \<Longrightarrow> roundHalfEven (x / ulp x) \<le> 2 ^ 53"
proof -
  assume pos: "0 < x"
  have "x < 2 ^ 53 * ulp x"
    using below_binade_top [OF pos] by (simp only: ulp_top)
  then have "x / ulp x \<le> of_int (2 ^ 53)"
    using ulp_pos [of x] by (simp add: pos_divide_le_eq)
  then show ?thesis by (rule roundHalfEven_le)
qed

lemma significand_ge: "0 < x \<Longrightarrow> - 1022 < binade x \<Longrightarrow> 2 ^ 52 \<le> roundHalfEven (x / ulp x)"
proof -
  assume pos: "0 < x" and normal: "- 1022 < binade x"
  have "2 ^ 52 * ulp x \<le> x"
    using above_binade_bottom [OF pos normal] by (simp only: ulp_bottom)
  then have "of_int (2 ^ 52) \<le> x / ulp x"
    using ulp_pos [of x] by (simp add: pos_le_divide_eq)
  then show ?thesis by (rule roundHalfEven_ge)
qed

lemma double_le_top: "0 < x \<Longrightarrow> double x \<le> 2 powr (of_int (binade x) + 1)"
proof -
  assume pos: "0 < x"
  have "real_of_int (roundHalfEven (x / ulp x)) \<le> real_of_int (2 ^ 53)"
    using significand_le [OF pos] by (simp only: of_int_le_iff)
  then have "double x \<le> real_of_int (2 ^ 53) * ulp x"
    unfolding double_def using ulp_pos [of x] by (intro mult_right_mono) simp_all
  also have "\<dots> = 2 powr (of_int (binade x) + 1)"
    using ulp_top [of x] by simp
  finally show ?thesis .
qed

lemma double_ge_bottom: "0 < x \<Longrightarrow> - 1022 < binade x \<Longrightarrow> 2 powr (of_int (binade x)) \<le> double x"
proof -
  assume pos: "0 < x" and normal: "- 1022 < binade x"
  have "real_of_int (2 ^ 52) \<le> real_of_int (roundHalfEven (x / ulp x))"
    using significand_ge [OF pos normal] by (simp only: of_int_le_iff)
  then have "real_of_int (2 ^ 52) * ulp x \<le> double x"
    unfolding double_def using ulp_pos [of x] by (intro mult_right_mono) simp_all
  moreover have "real_of_int (2 ^ 52) * ulp x = 2 powr (of_int (binade x))"
    using ulp_bottom [of x] by simp
  ultimately show ?thesis by simp
qed

lemma double_mono_pos: "0 < x \<Longrightarrow> x \<le> y \<Longrightarrow> double x \<le> double y"
proof -
  assume pos: "0 < x" and xy: "x \<le> y"
  then have ypos: "0 < y" by simp
  have bm: "binade x \<le> binade y" using pos xy by (rule binade_mono)
  show ?thesis
  proof (cases "binade x = binade y")
    case True
    then have u: "ulp x = ulp y" by (simp add: ulp_def)
    have "x / ulp y \<le> y / ulp y" using xy ulp_pos [of y] by (simp add: divide_right_mono)
    then have "roundHalfEven (x / ulp y) \<le> roundHalfEven (y / ulp y)"
      by (rule roundHalfEven_mono)
    then show ?thesis using ulp_pos [of y] by (simp add: double_def u)
  next
    case False
    with bm have lt: "binade x + 1 \<le> binade y" by simp
    have normal: "- 1022 < binade y"
      using lt by (simp add: binade_def [of x])
    have "double x \<le> 2 powr (of_int (binade x) + 1)" using pos by (rule double_le_top)
    also have "\<dots> \<le> 2 powr (of_int (binade y))"
      using lt by (simp add: powr_mono del: powr_le_cancel_iff) 
    also have "\<dots> \<le> double y" using ypos normal by (rule double_ge_bottom)
    finally show ?thesis .
  qed
qed

lemma double_mono: "0 \<le> x \<Longrightarrow> x \<le> y \<Longrightarrow> double x \<le> double y"
proof (cases "x = 0")
  case True
  assume "0 \<le> x" "x \<le> y"
  with True show ?thesis using double_nonneg [of y] by (simp add: double_0)
next
  case False
  assume "0 \<le> x" "x \<le> y"
  with False show ?thesis by (intro double_mono_pos) simp_all
qed


text \<open>Values \<open>m * 2^k\<close> with a significand below \<open>2^53\<close> are fixed by rounding.\<close>

lemma double_fixed:
  assumes m0: "0 \<le> m" and m53: "m < 2 ^ 53" and k: "- 1074 \<le> k"
  shows "double (of_int m * 2 powr (of_int k)) = of_int m * 2 powr (of_int k)"
proof (cases "m = 0")
  case True
  then show ?thesis by (simp add: double_0)
next
  case False
  define d where "d = real_of_int m * 2 powr (of_int k)"
  from False m0 have mpos: "0 < m" by simp
  then have dpos: "0 < d" by (simp add: d_def)
  have "real_of_int m < real_of_int (2 ^ 53)" using m53 by (simp only: of_int_less_iff)
  then have "d < real_of_int (2 ^ 53) * 2 powr (of_int k)"
    unfolding d_def by (intro mult_strict_right_mono) simp_all
  also have "\<dots> = 2 powr 53 * 2 powr (of_int k)" by simp
  also have "\<dots> = 2 powr (53 + of_int k)" by (simp only: powr_add)
  finally have dtop: "d < 2 powr (53 + of_int k)" .
  have "log 2 d < log 2 (2 powr (53 + of_int k))"
    using dpos dtop by (simp del: log_powr_cancel)
  then have "log 2 d < of_int (k + 53)" by simp
  then have "\<lfloor>log 2 d\<rfloor> < k + 53" by (simp only: floor_less_iff)
  then have "binade d \<le> k + 52" using k dpos by (simp add: binade_def)
  then obtain n :: nat where n: "k = binade d - 52 + int n"
    by (metis add.commute diff_le_eq nonneg_int_cases diff_add_cancel diff_ge_0_iff_ge)
  have "2 powr (of_int k) = 2 powr (real n + (of_int (binade d) - 52))"
    by (simp add: n add.commute)
  also have "\<dots> = 2 powr (real n) * ulp d"
    by (simp only: powr_add ulp_def)
  also have "\<dots> = 2 ^ n * ulp d" by (simp add: powr_realpow)
  finally have pk: "2 powr (of_int k) = 2 ^ n * ulp d" .
  have "d = real_of_int m * 2 powr (of_int k)" by (rule d_def)
  also have "\<dots> = real_of_int m * (2 ^ n * ulp d)" by (simp only: pk)
  also have "\<dots> = real_of_int (m * 2 ^ n) * ulp d" by simp
  finally have dd: "real_of_int (m * 2 ^ n) * ulp d = d" by (rule sym)
  then have "d / ulp d = real_of_int (m * 2 ^ n)"
    using ulp_pos [of d] by (simp only: nonzero_divide_eq_eq)
  then have "roundHalfEven (d / ulp d) = m * 2 ^ n"
    by (simp only: roundHalfEven_of_int)
  then have "double d = real_of_int (m * 2 ^ n) * ulp d" by (simp only: double_def)
  also have "\<dots> = d" by (rule dd)
  finally show ?thesis by (simp only: d_def)
qed

lemma double_of_int: "0 \<le> n \<Longrightarrow> n < 2 ^ 53 \<Longrightarrow> double (of_int n) = of_int n"
  using double_fixed [of n 0] by simp

lemma binade_ge: "- 1022 \<le> binade x"
  by (simp add: binade_def)

lemma double_idem: "0 \<le> x \<Longrightarrow> double (double x) = double x"
proof (cases "x = 0")
  case True
  then show ?thesis by (simp add: double_0)
next
  case False
  assume "0 \<le> x"
  with False have pos: "0 < x" by simp
  define m where "m = roundHalfEven (x / ulp x)"
  have d: "double x = of_int m * 2 powr (of_int (binade x - 52))"
    by (simp add: double_def m_def ulp_def)
  have "of_int 0 \<le> x / ulp x" using pos ulp_pos [of x] by simp
  then have m0: "0 \<le> m" unfolding m_def by (rule roundHalfEven_ge)
  have m53: "m \<le> 2 ^ 53" unfolding m_def using pos by (rule significand_le)
  show ?thesis
  proof (cases "m = 2 ^ 53")
    case True
    have "real_of_int m * 2 powr (of_int (binade x - 52)) = 2 ^ 53 * ulp x"
      by (simp add: True ulp_def)
    also have "\<dots> = 2 powr (of_int (binade x) + 1)" by (rule ulp_top)
    also have "\<dots> = 2 powr (52 + of_int (binade x - 51))" by (simp add: add.commute)
    also have "\<dots> = 2 powr 52 * 2 powr (of_int (binade x - 51))" by (simp only: powr_add)
    also have "\<dots> = of_int (2 ^ 52) * 2 powr (of_int (binade x - 51))" by simp
    finally have d': "double x = of_int (2 ^ 52) * 2 powr (of_int (binade x - 51))"
      by (simp only: d)
    show ?thesis
      unfolding d' using binade_ge [of x] by (intro double_fixed) simp_all
  next
    case False
    with m53 have "m < 2 ^ 53" by simp
    then show ?thesis
      unfolding d using m0 binade_ge [of x] by (intro double_fixed) simp_all
  qed
qed

text \<open>Evaluating the rounding of a number whose binade is known.\<close>

lemma double_eval:
  assumes "2 powr (of_int k) \<le> x" and "x < 2 powr (of_int k + 1)" and "- 1022 \<le> k"
  shows "double x = of_int (roundHalfEven (x / 2 powr (of_int k - 52))) * 2 powr (of_int k - 52)"
  using binade_eqI [OF assms] by (simp add: double_def ulp_def)

lemma double_tenth: "double (1 / 10) = 7205759403792794 * 2 powr (- 56)"
proof -
  have "double (1 / 10) =
      of_int (roundHalfEven ((1 / 10) / 2 powr (of_int (- 4) - 52))) * 2 powr (of_int (- 4) - 52)"
    by (rule double_eval) (simp_all add: powr_neg_numeral)
  also have "(1 / 10 :: real) / 2 powr (of_int (- 4) - 52) = 72057594037927936 / 10"
    by (simp add: powr_neg_numeral)
  also have "roundHalfEven (72057594037927936 / 10) = 7205759403792794"
    by (simp add: roundHalfEven_def)
  finally show ?thesis by simp
qed


section \<open>Timing\<close>

lemma js_mul_nonneg: "0 \<le> a \<Longrightarrow> 0 \<le> b \<Longrightarrow> 0 \<le> js_mul a b"
  by (simp add: js_mul_def double_nonneg)

lemma js_add_ge_left:
  assumes "0 \<le> a" and "double a = a" and "0 \<le> b"
  shows "a \<le> js_add a b"
proof -
  have "double a \<le> double (a + b)" using assms by (intro double_mono) simp_all
  then show ?thesis using assms by (simp add: js_add_def)
qed

lemma js_add_fixed: "0 \<le> a + b \<Longrightarrow> double (js_add a b) = js_add a b"
  by (simp add: js_add_def double_idem)

lemma bucketFor_range:
  "\<forall>(r, m) \<in> set buckets. 0 \<le> m \<Longrightarrow> 0 \<le> bucketFor buckets rank"
  by (induction buckets rank rule: bucketFor.induct) (auto simp: NOT_IN_LIST_MULTIPLIER_def)

lemma getWordBucketMultiplier_nonneg: "0 \<le> getWordBucketMultiplier wordRanks toLowerCase w"
  by (auto simp: getWordBucketMultiplier_def Let_def NOT_IN_LIST_MULTIPLIER_def
      BUCKET_THRESHOLDS_def intro!: bucketFor_range split: option.splits)

lemma getWordBucketMultiplier_le_1: "getWordBucketMultiplier wordRanks toLowerCase w \<le> 1"
  by (auto simp: getWordBucketMultiplier_def Let_def NOT_IN_LIST_MULTIPLIER_def
      BUCKET_THRESHOLDS_def split: option.splits)

lemma punctuation_multiplier_nonneg:
  "0 \<le> (case map_of PUNCTUATION_MULTIPLIERS c of Some m \<Rightarrow> m | None \<Rightarrow> 0)"
  by (simp add: PUNCTUATION_MULTIPLIERS_def)

lemma calculatePunctuationDelay_nonneg:
  "0 \<le> baseInterval \<Longrightarrow> 0 \<le> calculatePunctuationDelay w baseInterval"
  unfolding calculatePunctuationDelay_def Let_def
  by (intro js_mul_nonneg punctuation_multiplier_nonneg)

lemma calculateLengthDelay_nonneg:
  "0 \<le> baseInterval \<Longrightarrow> 0 \<le> factor \<Longrightarrow> 0 \<le> calculateLengthDelay w baseInterval factor"
  by (simp add: calculateLengthDelay_def Let_def js_mul_nonneg)

lemma calculateFrequencyDelay_nonneg:
  "0 \<le> baseInterval \<Longrightarrow> 0 \<le> factor \<Longrightarrow>
   0 \<le> calculateFrequencyDelay wordRanks toLowerCase w baseInterval factor"
  by (simp add: calculateFrequencyDelay_def Let_def js_mul_nonneg getWordBucketMultiplier_nonneg)

lemma calculateBaseInterval_fixed:
  "0 < n \<Longrightarrow> double (calculateBaseInterval n) = calculateBaseInterval n"
  by (simp add: calculateBaseInterval_def js_div_def double_idem)

lemma calculateBaseInterval_ge_60:
  assumes "0 < n" and "n \<le> 1000"
  shows "60 \<le> calculateBaseInterval n"
proof -
  have "60 \<le> 60000 / n" using assms by (simp add: pos_le_divide_eq)
  then have "double 60 \<le> double (60000 / n)" by (intro double_mono) simp_all
  moreover have "double 60 = 60" using double_of_int [of 60] by simp
  ultimately show ?thesis by (simp add: calculateBaseInterval_def js_div_def)
qed

lemma roundHalfEven_lower: "y - 1 / 2 \<le> of_int (roundHalfEven y)"
proof -
  define f where "f = \<lfloor>y\<rfloor>"
  have lt: "y < of_int f + 1" unfolding f_def by linarith
  have r: "roundHalfEven y =
      (if y - of_int f < 1 / 2 then f
       else if y - of_int f > 1 / 2 then f + 1
       else if even f then f else f + 1)"
    by (simp add: roundHalfEven_def f_def)
  show ?thesis using lt unfolding r by auto
qed

lemma double_lower: "x - ulp x / 2 \<le> double x"
proof -
  have "(x / ulp x - 1 / 2) * ulp x \<le> of_int (roundHalfEven (x / ulp x)) * ulp x"
    using roundHalfEven_lower [of "x / ulp x"] ulp_pos [of x]
    by (intro mult_right_mono) simp_all
  moreover have "(x / ulp x - 1 / 2) * ulp x = x - ulp x / 2"
    using ulp_pos [of x] by (simp add: algebra_simps)
  ultimately show ?thesis by (simp add: double_def)
qed

lemma ulp_le_600: assumes "0 < x" and "x \<le> 600" shows "ulp x \<le> 1 / 2 ^ 43"
proof -
  have "binade (600 :: real) = 9" by (rule binade_eqI) simp_all
  with binade_mono [OF assms] have "binade x \<le> 9" by simp
  then have "(2 :: real) powr (of_int (binade x) - 52) \<le> 2 powr (- 43)"
    by (intro powr_mono) simp_all
  then show ?thesis by (simp add: ulp_def powr_neg_numeral)
qed

lemma base_near_quotient:
  assumes "100 \<le> n" and "n \<le> (1000 :: real)"
  shows "60000 / n - 1 / 2 ^ 44 \<le> double (60000 / n)"
proof -
  have pos: "0 < 60000 / n" using assms by simp
  have "60000 / n \<le> 600" using assms by (simp add: pos_divide_le_eq)
  with pos have "ulp (60000 / n) \<le> 1 / 2 ^ 43" by (rule ulp_le_600)
  with double_lower [of "60000 / n"] show ?thesis by simp
qed

lemma base_101: "double (60000 / 101) = 5225401795371089 * 2 powr (- 43)"
proof -
  have "double (60000 / 101) =
      of_int (roundHalfEven ((60000 / 101) / 2 powr (of_int 9 - 52))) * 2 powr (of_int 9 - 52)"
    by (rule double_eval) simp_all
  also have "(60000 / 101 :: real) / 2 powr (of_int 9 - 52) = 527765581332480000 / 101"
    by (simp add: powr_neg_numeral)
  also have "roundHalfEven (527765581332480000 / 101) = 5225401795371089"
    by (simp add: roundHalfEven_def)
  finally show ?thesis by simp
qed

text \<open>
  Claim C8 as stated fails for the exact quotient: at \<open>101\<close> words per minute the
  quotient \<open>60000 / 101\<close> is not a double, the division rounds it down, and a word
  with no punctuation, with both optional delays off, is shown for exactly that
  rounded base interval, which is below \<open>60000 / 101\<close>.
\<close>

theorem calculateTotalDelay_below_exact_quotient:
  "calculateTotalDelay None (\<lambda>t. t) (utf16 ''a'') 101
     \<lparr>lengthDelayEnabled = False, lengthDelayFactor = 1 / 4,
      frequencyDelayEnabled = False, frequencyDelayFactor = 1 / 4\<rparr> < 60000 / 101"
proof -
  have base: "calculateBaseInterval 101 = 5225401795371089 * 2 powr (- 43)"
    by (simp add: calculateBaseInterval_def js_div_def base_101)
  have fixed: "double (of_int 5225401795371089 * 2 powr (of_int (- 43))) =
      of_int 5225401795371089 * 2 powr (of_int (- 43))"
    by (rule double_fixed) simp_all
  have punct: "calculatePunctuationDelay (utf16 ''a'') (5225401795371089 * 2 powr (- 43)) = 0"
    by (simp add: calculatePunctuationDelay_def utf16_def PUNCTUATION_MULTIPLIERS_def
        emDash_def js_mul_def double_0)
  have "calculateTotalDelay None (\<lambda>t. t) (utf16 ''a'') 101
     \<lparr>lengthDelayEnabled = False, lengthDelayFactor = 1 / 4,
      frequencyDelayEnabled = False, frequencyDelayFactor = 1 / 4\<rparr>
      = 5225401795371089 * 2 powr (- 43)"
    using fixed by (simp add: calculateTotalDelay_def base punct js_add_def)
  then show ?thesis by (simp add: powr_neg_numeral)
qed

text \<open>
  Claim C8, amended: for every word text, every integer speed in \<open>[100, 1000]\<close> and every
  settings value with \<open>lengthDelayFactor\<close> in \<open>[0, 0.5]\<close> and \<open>frequencyDelayFactor\<close> in
  \<open>[0, 1]\<close>, \<open>calculateTotalDelay\<close> is at least the double nearest to
  \<open>60000 / wpm\<close> (the quotient as binary64 division gives it), hence at least
  \<open>60000 / wpm - 2^-44\<close>, and it is strictly positive. The bucket multiplier is the one
  \<open>getWordBucketMultiplier\<close> returns, for any word list and any \<open>toLowerCase\<close>.
\<close>

theorem calculateTotalDelay_ge_rounded_quotient:
  fixes n :: int
  assumes n: "100 \<le> n" "n \<le> 1000"
    and lf: "0 \<le> lengthDelayFactor settings" "lengthDelayFactor settings \<le> 1 / 2"
    and ff: "0 \<le> frequencyDelayFactor settings" "frequencyDelayFactor settings \<le> 1"
  shows "double (60000 / real_of_int n)
           \<le> calculateTotalDelay wordRanks toLowerCase w (of_int n) settings \<and>
         60000 / real_of_int n - 1 / 2 ^ 44
           \<le> calculateTotalDelay wordRanks toLowerCase w (of_int n) settings \<and>
         0 < calculateTotalDelay wordRanks toLowerCase w (of_int n) settings"
proof -
  define base where "base = calculateBaseInterval (of_int n)"
  define t1 where "t1 = js_add base (calculatePunctuationDelay w base)"
  define t2 where "t2 = (if lengthDelayEnabled settings
      then js_add t1 (calculateLengthDelay w base (lengthDelayFactor settings)) else t1)"
  define t3 where "t3 = (if frequencyDelayEnabled settings
      then js_add t2 (calculateFrequencyDelay wordRanks toLowerCase w base
             (frequencyDelayFactor settings)) else t2)"
  have total: "calculateTotalDelay wordRanks toLowerCase w (of_int n) settings = t3"
    by (simp add: calculateTotalDelay_def Let_def base_def t1_def t2_def t3_def)
  have wpos: "0 < (of_int n :: real)" and wle: "(of_int n :: real) \<le> 1000"
    using n by simp_all
  have b60: "60 \<le> base" unfolding base_def using wpos wle by (rule calculateBaseInterval_ge_60)
  then have b0: "0 \<le> base" by simp
  have bfix: "double base = base"
    unfolding base_def using wpos by (rule calculateBaseInterval_fixed)
  have p0: "0 \<le> calculatePunctuationDelay w base"
    using b0 by (rule calculatePunctuationDelay_nonneg)
  have l0: "0 \<le> calculateLengthDelay w base (lengthDelayFactor settings)"
    using b0 lf(1) by (rule calculateLengthDelay_nonneg)
  have f0: "0 \<le> calculateFrequencyDelay wordRanks toLowerCase w base
      (frequencyDelayFactor settings)"
    using b0 ff(1) by (rule calculateFrequencyDelay_nonneg)
  have s1: "base \<le> t1" unfolding t1_def using b0 bfix p0 by (rule js_add_ge_left)
  have t1fix: "double t1 = t1" unfolding t1_def using b0 p0 by (intro js_add_fixed) simp
  have t10: "0 \<le> t1" using b0 s1 by simp
  have s2: "t1 \<le> t2"
    unfolding t2_def using js_add_ge_left [OF t10 t1fix l0] by simp
  have t2fix: "double t2 = t2"
    unfolding t2_def using t1fix t10 l0 by (simp add: js_add_fixed)
  have t20: "0 \<le> t2" using t10 s2 by simp
  have s3: "t2 \<le> t3"
    unfolding t3_def using js_add_ge_left [OF t20 t2fix f0] by simp
  from s1 s2 s3 have bt: "base \<le> t3" by simp
  have bq: "base = double (60000 / real_of_int n)"
    by (simp add: base_def calculateBaseInterval_def js_div_def)
  have "100 \<le> real_of_int n" using n by simp
  then have "60000 / real_of_int n - 1 / 2 ^ 44 \<le> double (60000 / real_of_int n)"
    using wle by (rule base_near_quotient)
  with bt b60 bq show ?thesis by (simp add: total)
qed


theorem calculateTotalDelay_ge_rounded_quotient_witness:
  "(100::int) \<le> 300 \<and> (300::int) \<le> 1000 \<and>
   double (60000 / 300)
     \<le> calculateTotalDelay None (\<lambda>t. t) (utf16 ''extraordinary.'') 300
         \<lparr>lengthDelayEnabled = True, lengthDelayFactor = 1 / 4,
          frequencyDelayEnabled = True, frequencyDelayFactor = 1 / 2\<rparr> \<and>
   60000 / 300 - 1 / 2 ^ 44
     \<le> calculateTotalDelay None (\<lambda>t. t) (utf16 ''extraordinary.'') 300
         \<lparr>lengthDelayEnabled = True, lengthDelayFactor = 1 / 4,
          frequencyDelayEnabled = True, frequencyDelayFactor = 1 / 2\<rparr> \<and>
   0 < calculateTotalDelay None (\<lambda>t. t) (utf16 ''extraordinary.'') 300
         \<lparr>lengthDelayEnabled = True, lengthDelayFactor = 1 / 4,
          frequencyDelayEnabled = True, frequencyDelayFactor = 1 / 2\<rparr>"
  using calculateTotalDelay_ge_rounded_quotient [of 300
      "\<lparr>lengthDelayEnabled = True, lengthDelayFactor = 1 / 4,
        frequencyDelayEnabled = True, frequencyDelayFactor = 1 / 2\<rparr>"
      None "\<lambda>t. t" "utf16 ''extraordinary.''"]
  by simp

lemma double_200: "double 200 = 200"
  using double_of_int [of 200] by simp

lemma double_300: "double 300 = 300"
  using double_of_int [of 300] by simp

lemma double_500: "double 500 = 500"
  using double_of_int [of 500] by simp

lemma double_660: "double 660 = 660"
  using double_of_int [of 660] by simp

lemma eight_tenths: "js_mul 8 (double (1 / 10)) = 7205759403792794 * 2 powr (- 53)"
proof -
  have e: "8 * double (1 / 10) = of_int 7205759403792794 * 2 powr (of_int (- 53))"
    by (simp add: double_tenth powr_neg_numeral)
  have "double (of_int 7205759403792794 * 2 powr (of_int (- 53))) =
      of_int 7205759403792794 * 2 powr (of_int (- 53))"
    by (rule double_fixed) simp_all
  then have "double (8 * double (1 / 10)) = of_int 7205759403792794 * 2 powr (of_int (- 53))"
    by (simp only: e)
  then show ?thesis by (simp add: js_mul_def)
qed

lemma length_delay_160: "js_mul (7205759403792794 * 2 powr (- 53)) 200 = 160"
proof -
  define x :: real where "x = 7205759403792794 * 2 powr (- 53) * 200"
  have xv: "x = 1441151880758558800 / 9007199254740992"
    by (simp add: x_def powr_neg_numeral)
  have "double x =
      of_int (roundHalfEven (x / 2 powr (of_int 7 - 52))) * 2 powr (of_int 7 - 52)"
    by (rule double_eval) (simp_all add: xv)
  also have "x / 2 powr (of_int 7 - 52) = 1441151880758558800 / 256"
    by (simp add: xv powr_neg_numeral)
  also have "roundHalfEven (1441151880758558800 / 256) = 5629499534213120"
    by (simp add: roundHalfEven_def)
  finally have "double x = 160" by (simp add: powr_neg_numeral)
  then show ?thesis by (simp add: js_mul_def x_def)
qed

text \<open>
  Claim C9: \<open>calculateTotalDelay("extraordinary.", 300, settings)\<close> with the length
  delay enabled at factor \<open>0.1\<close> and the frequency delay disabled is exactly \<open>660\<close>:
  base \<open>200\<close>, period \<open>1.5 * 200 = 300\<close>, length \<open>(13 - 5) * 0.1 * 200 = 160\<close>. The
  factor is the double nearest to one tenth, and every product and sum is rounded;
  the rounded product \<open>8 * 0.1 * 200\<close> is \<open>160\<close> itself.
\<close>

theorem calculateTotalDelay_extraordinary:
  "calculateTotalDelay wordRanks toLowerCase (utf16 ''extraordinary.'') 300
     \<lparr>lengthDelayEnabled = True, lengthDelayFactor = double (1 / 10),
      frequencyDelayEnabled = False, frequencyDelayFactor = ff\<rparr> = 660"
proof -
  have base: "calculateBaseInterval 300 = 200"
    by (simp add: calculateBaseInterval_def js_div_def double_200)
  have punct: "calculatePunctuationDelay (utf16 ''extraordinary.'') 200 = 300"
    by (simp add: calculatePunctuationDelay_def utf16_def PUNCTUATION_MULTIPLIERS_def
        emDash_def js_mul_def double_300)
  have len: "calculateLengthDelay (utf16 ''extraordinary.'') 200 (double (1 / 10)) = 160"
    by (simp add: calculateLengthDelay_def utf16_def isAlphaNumeric_def eight_tenths
        length_delay_160)
  show ?thesis
    by (simp add: calculateTotalDelay_def base punct len js_add_def double_500 double_660)
qed

section \<open>Clamp\<close>

lemma js_at_Some: "0 \<le> i \<Longrightarrow> i < int (length xs) \<Longrightarrow> js_at xs i = Some (xs ! nat i)"
  by (simp add: js_at_def)

lemma js_at_None: "i < 0 \<or> int (length xs) \<le> i \<Longrightarrow> js_at xs i = None"
  by (auto simp: js_at_def)

declare clampWalkBack.simps [simp del]

lemma clampWalkBack_greatest:
  "0 \<le> i \<Longrightarrow> i < int (length chs) \<Longrightarrow> ch = chs ! nat i \<Longrightarrow>
   \<exists>j. clampWalkBack chs i ch = Inr (j, chs ! nat j) \<and> 0 \<le> j \<and> j \<le> i \<and>
       (\<forall>k. j < k \<and> k \<le> i \<longrightarrow> paragraphs (chs ! nat k) = []) \<and>
       (paragraphs (chs ! nat j) = [] \<longrightarrow> j = 0)"
proof (induction chs i ch rule: clampWalkBack.induct)
  case (1 chs i ch)
  show ?case
  proof (cases "length (paragraphs ch) = 0 \<and> i > 0")
    case True
    then have found: "js_at chs (i - 1) = Some (chs ! nat (i - 1))"
      using "1.prems" by (intro js_at_Some) simp_all
    have "\<exists>j. clampWalkBack chs (i - 1) (chs ! nat (i - 1)) = Inr (j, chs ! nat j) \<and>
        0 \<le> j \<and> j \<le> i - 1 \<and>
        (\<forall>k. j < k \<and> k \<le> i - 1 \<longrightarrow> paragraphs (chs ! nat k) = []) \<and>
        (paragraphs (chs ! nat j) = [] \<longrightarrow> j = 0)"
      using True "1.prems" found by (intro "1.IH") simp_all
    then obtain j where j: "clampWalkBack chs (i - 1) (chs ! nat (i - 1)) = Inr (j, chs ! nat j)"
      "0 \<le> j" "j \<le> i - 1"
      "\<forall>k. j < k \<and> k \<le> i - 1 \<longrightarrow> paragraphs (chs ! nat k) = []"
      "paragraphs (chs ! nat j) = [] \<longrightarrow> j = 0" by blast
    have step: "clampWalkBack chs i ch = clampWalkBack chs (i - 1) (chs ! nat (i - 1))"
      using True found by (subst clampWalkBack.simps) simp
    have top: "paragraphs (chs ! nat i) = []" using True "1.prems" by simp
    have "\<forall>k. j < k \<and> k \<le> i \<longrightarrow> paragraphs (chs ! nat k) = []"
    proof (intro allI impI)
      fix k assume k: "j < k \<and> k \<le> i"
      show "paragraphs (chs ! nat k) = []"
      proof (cases "k = i")
        case True
        with top show ?thesis by simp
      next
        case False
        with k have "j < k \<and> k \<le> i - 1" by simp
        with j(4) show ?thesis by blast
      qed
    qed
    with j step show ?thesis by (intro exI [of _ j]) simp
  next
    case False
    then have "clampWalkBack chs i ch = Inr (i, ch)"
      by (subst clampWalkBack.simps) auto
    with False "1.prems" show ?thesis by (intro exI [of _ i]) auto
  qed
qed

text \<open>
  Claim C4 as stated fails: the first chapter of \<open>gapBook\<close> has no paragraph. For the
  position \<open>{0, 0, 0}\<close> the walk backwards has nowhere to go, and \<open>clampPosition\<close>
  returns \<open>{0, 0, 0}\<close>, which is not valid, although \<open>{1, 0, 0}\<close> is a valid position
  of the book.
\<close>

theorem clampPosition_empty_first_chapter:
  "clampPosition gapBook \<lparr>chapterIndex = 0, paragraphIndex = 0, wordIndex = 0\<rparr>
     = Inr \<lparr>chapterIndex = 0, paragraphIndex = 0, wordIndex = 0\<rparr> \<and>
   \<not> validPosition gapBook \<lparr>chapterIndex = 0, paragraphIndex = 0, wordIndex = 0\<rparr> \<and>
   validPosition gapBook \<lparr>chapterIndex = 1, paragraphIndex = 0, wordIndex = 0\<rparr>"
  by (simp add: clampPosition_def clampWalkBack.simps js_at_def validPosition_def
      gapBook_def emptyChapter_def plainChapter_def
      oneWordParagraph_def someWord_def)

text \<open>
  Claim C4, amended: for every book with at least one chapter and every position \<open>p\<close>
  with arbitrary integer components, \<open>clampPosition\<close> returns a position \<open>q\<close> with
  \<^item> \<open>q.chapterIndex\<close> the greatest index, at or below the chapter index of \<open>p\<close>
    clamped into range, of a chapter that has a paragraph, or \<open>0\<close> when there is none;
  \<^item> \<open>q.paragraphIndex\<close> the paragraph index of \<open>p\<close> clamped into that chapter's range
    (\<open>0\<close> for a chapter without paragraphs);
  \<^item> \<open>q.wordIndex\<close> the word index of \<open>p\<close> clamped into that paragraph's range (\<open>0\<close>
    for a missing paragraph or one without words).

  The position \<open>q\<close> satisfies the validity invariant exactly when its chapter has a
  paragraph and its paragraph has a word. So it is valid whenever some chapter at or
  below the clamped chapter index has a paragraph and no paragraph of the book is
  without words, and a valid \<open>p\<close> is returned as it is.
\<close>

theorem clampPosition_result:
  assumes "chapters b \<noteq> []"
  shows "\<exists>q. clampPosition b p = Inr q \<and>
           0 \<le> chapterIndex q \<and>
           chapterIndex q \<le> max 0 (min (chapterIndex p) (int (length (chapters b)) - 1)) \<and>
           (\<forall>j. chapterIndex q < j \<and>
                 j \<le> max 0 (min (chapterIndex p) (int (length (chapters b)) - 1)) \<longrightarrow>
                 paragraphs (chapters b ! nat j) = []) \<and>
           (paragraphs (chapters b ! nat (chapterIndex q)) = [] \<longrightarrow> chapterIndex q = 0) \<and>
           paragraphIndex q =
             max 0 (min (paragraphIndex p)
               (int (length (paragraphs (chapters b ! nat (chapterIndex q)))) - 1)) \<and>
           wordIndex q =
             (if paragraphs (chapters b ! nat (chapterIndex q)) = [] then 0
              else max 0 (min (wordIndex p)
                (int (length (words
                   (paragraphs (chapters b ! nat (chapterIndex q)) ! nat (paragraphIndex q))))
                 - 1))) \<and>
           (validPosition b q \<longleftrightarrow>
              paragraphs (chapters b ! nat (chapterIndex q)) \<noteq> [] \<and>
              words (paragraphs (chapters b ! nat (chapterIndex q)) ! nat (paragraphIndex q))
                \<noteq> []) \<and>
           ((\<exists>j. 0 \<le> j \<and>
                 j \<le> max 0 (min (chapterIndex p) (int (length (chapters b)) - 1)) \<and>
                 paragraphs (chapters b ! nat j) \<noteq> []) \<and>
            (\<forall>c \<in> set (chapters b). \<forall>r \<in> set (paragraphs c). words r \<noteq> [])
              \<longrightarrow> validPosition b q) \<and>
           (validPosition b p \<longrightarrow> q = p)"
proof -
  define c0 where "c0 = max 0 (min (chapterIndex p) (int (length (chapters b)) - 1))"
  from assms have len: "0 < length (chapters b)" by simp
  then have c0: "0 \<le> c0" "c0 < int (length (chapters b))" by (auto simp: c0_def)
  then have at0: "js_at (chapters b) c0 = Some (chapters b ! nat c0)" by (rule js_at_Some)
  obtain j where walk: "clampWalkBack (chapters b) c0 (chapters b ! nat c0)
        = Inr (j, chapters b ! nat j)" and j: "0 \<le> j" "j \<le> c0"
    and above: "\<forall>k. j < k \<and> k \<le> c0 \<longrightarrow> paragraphs (chapters b ! nat k) = []"
    and bottom: "paragraphs (chapters b ! nat j) = [] \<longrightarrow> j = 0"
    using clampWalkBack_greatest [OF c0 refl] by blast
  define ch where "ch = chapters b ! nat j"
  define p1 where "p1 = max 0 (min (paragraphIndex p)
      (max 0 (int (length (paragraphs ch)) - 1)))"
  define w1 where "w1 = (case js_at (paragraphs ch) p1 of
      Some par \<Rightarrow> max 0 (min (wordIndex p) (max 0 (int (length (words par)) - 1)))
    | None \<Rightarrow> 0)"
  define q where "q = \<lparr>chapterIndex = j, paragraphIndex = p1, wordIndex = w1\<rparr>"
  have res: "clampPosition b p = Inr q"
    unfolding clampPosition_def Let_def c0_def [symmetric]
    by (simp add: at0 walk p1_def w1_def ch_def q_def)
  have qc: "chapterIndex q = j" and qp: "paragraphIndex q = p1" and qw: "wordIndex q = w1"
    by (simp_all add: q_def)
  have jlt: "j < int (length (chapters b))" using j c0 by simp
  have p1eq: "p1 = max 0 (min (paragraphIndex p) (int (length (paragraphs ch)) - 1))"
    by (auto simp: p1_def)
  have w1eq: "w1 = (if paragraphs ch = [] then 0
      else max 0 (min (wordIndex p) (int (length (words (paragraphs ch ! nat p1))) - 1)))"
  proof (cases "paragraphs ch = []")
    case True
    then show ?thesis by (simp add: w1_def js_at_def)
  next
    case False
    then have "0 \<le> p1" "p1 < int (length (paragraphs ch))" by (auto simp: p1_def)
    then have "js_at (paragraphs ch) p1 = Some (paragraphs ch ! nat p1)" by (rule js_at_Some)
    with False show ?thesis by (auto simp: w1_def)
  qed
  have f1: "0 \<le> chapterIndex q" and f2: "chapterIndex q \<le> c0"
    using j by (simp_all add: qc)
  have f3: "\<forall>k. chapterIndex q < k \<and> k \<le> c0 \<longrightarrow> paragraphs (chapters b ! nat k) = []"
    using above by (simp only: qc)
  have f4: "paragraphs (chapters b ! nat (chapterIndex q)) = [] \<longrightarrow> chapterIndex q = 0"
    using bottom by (simp only: qc)
  have f5: "paragraphIndex q = max 0 (min (paragraphIndex p)
      (int (length (paragraphs (chapters b ! nat (chapterIndex q)))) - 1))"
    using p1eq by (simp only: qc qp ch_def)
  have f6: "wordIndex q =
      (if paragraphs (chapters b ! nat (chapterIndex q)) = [] then 0
       else max 0 (min (wordIndex p)
         (int (length (words
            (paragraphs (chapters b ! nat (chapterIndex q)) ! nat (paragraphIndex q))))
          - 1)))"
    using w1eq by (simp only: qc qp qw ch_def)
  have pr: "paragraphs ch \<noteq> [] \<Longrightarrow> 0 \<le> p1 \<and> p1 < int (length (paragraphs ch))"
    by (auto simp: p1_def)
  have f7: "validPosition b q \<longleftrightarrow>
      paragraphs (chapters b ! nat (chapterIndex q)) \<noteq> [] \<and>
      words (paragraphs (chapters b ! nat (chapterIndex q)) ! nat (paragraphIndex q)) \<noteq> []"
  proof (cases "paragraphs ch = []")
    case True
    then have "\<not> validPosition b q"
      by (simp add: validPosition_def qc qp flip: ch_def)
    with True show ?thesis by (simp add: qc ch_def)
  next
    case False
    note nonempty = this
    with pr have range: "0 \<le> p1" "p1 < int (length (paragraphs ch))" by simp_all
    show ?thesis
    proof (cases "words (paragraphs ch ! nat p1) = []")
      case True
      then have "\<not> validPosition b q"
        by (simp add: validPosition_def qc qp qw flip: ch_def)
      with True show ?thesis by (simp add: qc qp ch_def)
    next
      case False
      then have "0 \<le> w1" "w1 < int (length (words (paragraphs ch ! nat p1)))"
        by (auto simp: w1eq nonempty)
      with range j(1) jlt have "validPosition b q"
        by (simp add: validPosition_def qc qp qw flip: ch_def)
      with False nonempty show ?thesis by (simp add: qc qp ch_def)
    qed
  qed
  have f8: "(\<exists>k. 0 \<le> k \<and> k \<le> c0 \<and> paragraphs (chapters b ! nat k) \<noteq> []) \<and>
      (\<forall>c \<in> set (chapters b). \<forall>r \<in> set (paragraphs c). words r \<noteq> [])
        \<longrightarrow> validPosition b q"
  proof
    assume hyp: "(\<exists>k. 0 \<le> k \<and> k \<le> c0 \<and> paragraphs (chapters b ! nat k) \<noteq> []) \<and>
      (\<forall>c \<in> set (chapters b). \<forall>r \<in> set (paragraphs c). words r \<noteq> [])"
    then obtain k where k: "0 \<le> k" "paragraphs (chapters b ! nat k) \<noteq> []"
      and kc0: "k \<le> c0" by blast
    from hyp have full: "\<forall>c \<in> set (chapters b). \<forall>r \<in> set (paragraphs c). words r \<noteq> []"
      by blast
    have nonempty: "paragraphs ch \<noteq> []"
    proof
      assume empty: "paragraphs ch = []"
      with bottom have "j = 0" by (simp add: ch_def)
      with k empty have "j < k" by (cases "k = 0") (auto simp: ch_def)
      with above kc0 k(2) show False by blast
    qed
    with pr have "0 \<le> p1" "p1 < int (length (paragraphs ch))" by simp_all
    then have "paragraphs ch ! nat p1 \<in> set (paragraphs ch)" by (intro nth_mem) simp
    moreover have "ch \<in> set (chapters b)"
      unfolding ch_def using j(1) jlt by (intro nth_mem) simp
    ultimately have "words (paragraphs ch ! nat p1) \<noteq> []" using full by blast
    with nonempty f7 show "validPosition b q" by (simp add: qc qp ch_def)
  qed
  have f9: "validPosition b p \<longrightarrow> q = p"
  proof
    assume v: "validPosition b p"
    then have c: "0 \<le> chapterIndex p" "chapterIndex p < int (length (chapters b))"
      and pp: "0 \<le> paragraphIndex p"
        "paragraphIndex p < int (length (paragraphs (chapters b ! nat (chapterIndex p))))"
      and ww: "0 \<le> wordIndex p" "wordIndex p < int (length (words
        (paragraphs (chapters b ! nat (chapterIndex p)) ! nat (paragraphIndex p))))"
      by (simp_all add: validPosition_def)
    from c have c0p: "c0 = chapterIndex p" by (simp add: c0_def)
    have "j = c0"
    proof (rule ccontr)
      assume "j \<noteq> c0"
      with j have "j < c0 \<and> c0 \<le> c0" by simp
      with above have "paragraphs (chapters b ! nat c0) = []" by blast
      with pp c0p show False by simp
    qed
    with c0p have jp: "j = chapterIndex p" by simp
    then have chp: "ch = chapters b ! nat (chapterIndex p)" by (simp add: ch_def)
    from pp have p1p: "p1 = paragraphIndex p" by (simp add: p1eq chp)
    from pp ww have "w1 = wordIndex p" by (auto simp: w1eq chp p1p)
    with jp p1p show "q = p" by (simp add: q_def)
  qed
  from res f1 f2 f3 f4 f5 f6 f7 f8 f9 show ?thesis
    unfolding c0_def by (intro exI [of _ q] conjI)
qed

theorem clampPosition_result_witness:
  "chapters trailingGapBook \<noteq> [] \<and>
   clampPosition trailingGapBook \<lparr>chapterIndex = 1, paragraphIndex = 0, wordIndex = 0\<rparr>
     = Inr \<lparr>chapterIndex = 0, paragraphIndex = 0, wordIndex = 0\<rparr> \<and>
   validPosition trailingGapBook \<lparr>chapterIndex = 0, paragraphIndex = 0, wordIndex = 0\<rparr>"
  using clampPosition_result [of trailingGapBook
      "\<lparr>chapterIndex = 1, paragraphIndex = 0, wordIndex = 0\<rparr>"]
  by (simp add: clampPosition_def clampWalkBack.simps js_at_def validPosition_def
      trailingGapBook_def emptyChapter_def plainChapter_def
      oneWordParagraph_def someWord_def)

section \<open>Engine: what the helpers leave alone\<close>

lemma setStatus_keeps:
  "book (setStatus s st) = book s" "position (setStatus s st) = position s"
  "timerId (setStatus s st) = timerId s" "timeouts (setStatus s st) = timeouts s"
  "status (setStatus s st) = st"
  by (simp_all add: setStatus_def)

lemma notifyWordChange_keeps:
  "book (notifyWordChange s) = book s" "position (notifyWordChange s) = position s"
  "timerId (notifyWordChange s) = timerId s" "timeouts (notifyWordChange s) = timeouts s"
  "status (notifyWordChange s) = status s"
  by (simp_all add: notifyWordChange_def)

lemma pause_keeps:
  "book (pause s) = book s" "position (pause s) = position s"
  by (simp_all add: pause_def Let_def setStatus_keeps split: option.splits)

lemma scheduleNext_keeps:
  "book (scheduleNext s) = book s" "position (scheduleNext s) = position s"
  by (simp_all add: scheduleNext_def pause_keeps split: option.splits)

lemma play_keeps:
  "book (play s) = book s" "position (play s) = position s"
  by (simp_all add: play_def scheduleNext_keeps setStatus_keeps)

lemma setViewMode_keeps:
  "book (setViewMode s m) = book s" "position (setViewMode s m) = position s"
  by (simp_all add: setViewMode_def Let_def pause_keeps)

section \<open>Books without empty chapters or paragraphs\<close>

lemma nonDegenerate_paragraphs:
  "nonDegenerate b \<Longrightarrow> 0 \<le> c \<Longrightarrow> c < int (length (chapters b)) \<Longrightarrow>
   0 < length (paragraphs (chapters b ! nat c))"
proof -
  assume nd: "nonDegenerate b" and "0 \<le> c" and "c < int (length (chapters b))"
  then have "chapters b ! nat c \<in> set (chapters b)" by (intro nth_mem) simp
  with nd show ?thesis by (simp add: nonDegenerate_def)
qed

lemma nonDegenerate_words:
  "nonDegenerate b \<Longrightarrow> 0 \<le> c \<Longrightarrow> c < int (length (chapters b)) \<Longrightarrow>
   0 \<le> p \<Longrightarrow> p < int (length (paragraphs (chapters b ! nat c))) \<Longrightarrow>
   0 < length (words (paragraphs (chapters b ! nat c) ! nat p))"
proof -
  assume nd: "nonDegenerate b" and c: "0 \<le> c" "c < int (length (chapters b))"
    and p: "0 \<le> p" "p < int (length (paragraphs (chapters b ! nat c)))"
  from c have "chapters b ! nat c \<in> set (chapters b)" by (intro nth_mem) simp
  moreover from p have "paragraphs (chapters b ! nat c) ! nat p
      \<in> set (paragraphs (chapters b ! nat c))" by (intro nth_mem) simp
  ultimately show ?thesis using nd by (simp add: nonDegenerate_def)
qed

lemma nonDegenerate_paragraph_start:
  "nonDegenerate b \<Longrightarrow> 0 \<le> chapterIndex q \<Longrightarrow> chapterIndex q < int (length (chapters b)) \<Longrightarrow>
   0 \<le> paragraphIndex q \<Longrightarrow>
   paragraphIndex q < int (length (paragraphs (chapters b ! nat (chapterIndex q)))) \<Longrightarrow>
   wordIndex q = 0 \<Longrightarrow> validPosition b q"
  using nonDegenerate_words [of b "chapterIndex q" "paragraphIndex q"]
  by (simp add: validPosition_def)

lemma nonDegenerate_chapter_start:
  "nonDegenerate b \<Longrightarrow> 0 \<le> chapterIndex q \<Longrightarrow> chapterIndex q < int (length (chapters b)) \<Longrightarrow>
   paragraphIndex q = 0 \<Longrightarrow> wordIndex q = 0 \<Longrightarrow> validPosition b q"
  using nonDegenerate_paragraphs [of b "chapterIndex q"]
  by (intro nonDegenerate_paragraph_start) simp_all

section \<open>Engine: each operation keeps the position valid\<close>

lemma loadBook_valid:
  "nonDegenerate b \<Longrightarrow>
   book (loadBook s b) = Some b \<and> validPosition b (position (loadBook s b))"
proof -
  assume nd: "nonDegenerate b"
  then have "0 < int (length (chapters b))" by (simp add: nonDegenerate_def)
  with nd have "validPosition b \<lparr>chapterIndex = 0, paragraphIndex = 0, wordIndex = 0\<rparr>"
    by (intro nonDegenerate_chapter_start) simp_all
  then show ?thesis
    by (simp add: loadBook_def notifyWordChange_keeps setStatus_keeps)
qed

lemma advance_valid:
  assumes b: "book s = Some b" and v: "validPosition b (position s)" and nd: "nonDegenerate b"
  shows "book (advance s) = Some b \<and> validPosition b (position (advance s))"
proof -
  define c where "c = chapterIndex (position s)"
  define p where "p = paragraphIndex (position s)"
  define w where "w = wordIndex (position s)"
  define ch where "ch = chapters b ! nat c"
  define par where "par = paragraphs ch ! nat p"
  from v have c: "0 \<le> c" "c < int (length (chapters b))"
    and p: "0 \<le> p" "p < int (length (paragraphs ch))"
    and w: "0 \<le> w" "w < int (length (words par))"
    by (simp_all add: validPosition_def c_def p_def w_def ch_def par_def)
  have atc: "js_at (chapters b) c = Some ch" using c by (simp add: js_at_def ch_def)
  have atp: "js_at (paragraphs ch) p = Some par" using p by (simp add: js_at_def par_def)
  have adv: "advance s =
      (if w + 1 < int (length (words par))
       then s\<lparr>position := (position s)\<lparr>wordIndex := w + 1\<rparr>\<rparr>
       else if p + 1 < int (length (paragraphs ch))
       then s\<lparr>position := (position s)\<lparr>paragraphIndex := p + 1, wordIndex := 0\<rparr>\<rparr>
       else if c + 1 < int (length (chapters b))
       then s\<lparr>position := (position s)\<lparr>chapterIndex := c + 1,
              paragraphIndex := 0, wordIndex := 0\<rparr>\<rparr>
       else pause s)"
    using atc atp by (simp add: advance_def b flip: c_def p_def w_def)
  show ?thesis
  proof (cases "w + 1 < int (length (words par))")
    case True
    with adv v w b show ?thesis
      by (simp add: validPosition_def flip: c_def p_def w_def ch_def par_def)
  next
    case noWord: False
    show ?thesis
    proof (cases "p + 1 < int (length (paragraphs ch))")
      case True
      with nd c p have "validPosition b
          ((position s)\<lparr>paragraphIndex := p + 1, wordIndex := 0\<rparr>)"
        unfolding ch_def c_def by (intro nonDegenerate_paragraph_start) simp_all
      then show ?thesis using adv noWord True b by simp
    next
      case noPar: False
      show ?thesis
      proof (cases "c + 1 < int (length (chapters b))")
        case True
        with nd c have "validPosition b ((position s)\<lparr>chapterIndex := c + 1,
            paragraphIndex := 0, wordIndex := 0\<rparr>)"
          by (intro nonDegenerate_chapter_start) simp_all
        then show ?thesis using adv noWord noPar True b by simp
      next
        case False
        with adv noWord noPar b v show ?thesis by (simp add: pause_keeps)
      qed
    qed
  qed
qed

lemma retreat_valid:
  assumes b: "book s = Some b" and v: "validPosition b (position s)" and nd: "nonDegenerate b"
  shows "\<exists>s'. retreat s = Inr s' \<and> book s' = Some b \<and> validPosition b (position s')"
proof -
  define c where "c = chapterIndex (position s)"
  define p where "p = paragraphIndex (position s)"
  define w where "w = wordIndex (position s)"
  define ch where "ch = chapters b ! nat c"
  from v have c: "0 \<le> c" "c < int (length (chapters b))"
    and p: "0 \<le> p" "p < int (length (paragraphs ch))"
    and w: "0 \<le> w" "w < int (length (words (paragraphs ch ! nat p)))"
    by (simp_all add: validPosition_def c_def p_def w_def ch_def)
  show ?thesis
  proof (cases "w > 0")
    case True
    then have "retreat s = Inr (s\<lparr>position := (position s)\<lparr>wordIndex := w - 1\<rparr>\<rparr>)"
      by (simp add: retreat_def b flip: w_def)
    moreover have "validPosition b ((position s)\<lparr>wordIndex := w - 1\<rparr>)"
      using v True w by (simp add: validPosition_def flip: c_def p_def w_def ch_def)
    ultimately show ?thesis using b by simp
  next
    case w0: False
    show ?thesis
    proof (cases "p > 0")
      case True
      define np where "np = paragraphs ch ! nat (p - 1)"
      have atc: "js_at (chapters b) c = Some ch" using c by (simp add: js_at_def ch_def)
      have atp: "js_at (paragraphs ch) (p - 1) = Some np"
        using p True by (simp add: js_at_def np_def)
      have r: "retreat s = Inr (s\<lparr>position := (position s)
          \<lparr>paragraphIndex := p - 1, wordIndex := max 0 (int (length (words np)) - 1)\<rparr>\<rparr>)"
        using w0 True atc atp by (simp add: retreat_def b flip: c_def p_def w_def)
      have "0 < length (words (paragraphs (chapters b ! nat c) ! nat (p - 1)))"
        using nd c p True unfolding ch_def by (intro nonDegenerate_words) simp_all
      then have "0 < length (words np)" by (simp add: np_def ch_def)
      then have "validPosition b ((position s)
          \<lparr>paragraphIndex := p - 1, wordIndex := max 0 (int (length (words np)) - 1)\<rparr>)"
        using c p True
        by (simp add: validPosition_def flip: c_def ch_def) (simp add: np_def)
      with r b show ?thesis by simp
    next
      case p0: False
      show ?thesis
      proof (cases "c > 0")
        case True
        define nc where "nc = chapters b ! nat (c - 1)"
        define q where "q = max 0 (int (length (paragraphs nc)) - 1)"
        define np where "np = paragraphs nc ! nat q"
        have "0 < length (paragraphs (chapters b ! nat (c - 1)))"
          using nd c True by (intro nonDegenerate_paragraphs) simp_all
        then have npar: "0 < length (paragraphs nc)" by (simp add: nc_def)
        then have q: "0 \<le> q" "q < int (length (paragraphs nc))" by (simp_all add: q_def)
        have "0 < length (words (paragraphs (chapters b ! nat (c - 1)) ! nat q))"
          using nd c True q unfolding nc_def by (intro nonDegenerate_words) simp_all
        then have nw: "0 < length (words np)" by (simp add: np_def nc_def)
        have atc: "js_at (chapters b) (c - 1) = Some nc"
          using c True by (simp add: js_at_def nc_def)
        have atp: "js_at (paragraphs nc) q = Some np"
          using q by (simp add: js_at_def np_def)
        have r: "retreat s = Inr (s\<lparr>position := \<lparr>chapterIndex = c - 1, paragraphIndex = q,
            wordIndex = max 0 (int (length (words np)) - 1)\<rparr>\<rparr>)"
          using w0 p0 True atc atp
          by (simp add: retreat_def b Let_def flip: c_def p_def w_def q_def)
        have "validPosition b \<lparr>chapterIndex = c - 1, paragraphIndex = q,
            wordIndex = max 0 (int (length (words np)) - 1)\<rparr>"
          using c True q nw by (simp add: validPosition_def flip: nc_def) (simp add: np_def)
        with r b show ?thesis by simp
      next
        case False
        with w0 p0 have "retreat s = Inr s" by (simp add: retreat_def b flip: c_def p_def w_def)
        with b v show ?thesis by simp
      qed
    qed
  qed
qed

lemma goToChapter_valid:
  assumes b: "book s = Some b" and v: "validPosition b (position s)" and nd: "nonDegenerate b"
  shows "book (goToChapter s i) = Some b \<and> validPosition b (position (goToChapter s i))"
proof (cases "i < 0 \<or> i \<ge> int (length (chapters b))")
  case True
  with b v show ?thesis by (simp add: goToChapter_def)
next
  case False
  with nd have "validPosition b \<lparr>chapterIndex = i, paragraphIndex = 0, wordIndex = 0\<rparr>"
    by (intro nonDegenerate_chapter_start) simp_all
  with False b show ?thesis by (simp add: goToChapter_def notifyWordChange_keeps)
qed

lemma restartParagraph_valid:
  assumes b: "book s = Some b" and v: "validPosition b (position s)"
  shows "book (restartParagraph s) = Some b \<and>
         validPosition b (position (restartParagraph s))"
  using b v by (auto simp: restartParagraph_def validPosition_def notifyWordChange_keeps)

lemma setPosition_valid:
  assumes b: "book s = Some b" and v: "validPosition b (position s)"
  shows "book (setPosition s pos) = Some b \<and> validPosition b (position (setPosition s pos))"
  using b v by (simp add: setPosition_def Let_def validPosition_def notifyWordChange_keeps)

text \<open>
  Claim C1 as stated fails: with \<open>trailingGapBook\<close> loaded the position \<open>{0, 0, 0}\<close> is
  valid, and \<open>nextWord\<close> moves to \<open>{1, 0, 0}\<close>, the start of a chapter without
  paragraphs, which is not a valid position.
\<close>

theorem nextWord_into_empty_chapter:
  "book (loadBook newEngine trailingGapBook) = Some trailingGapBook \<and>
   validPosition trailingGapBook (position (loadBook newEngine trailingGapBook)) \<and>
   call (loadBook newEngine trailingGapBook) NextWord
     = Inr (nextWord (loadBook newEngine trailingGapBook)) \<and>
   position (nextWord (loadBook newEngine trailingGapBook))
     = \<lparr>chapterIndex = 1, paragraphIndex = 0, wordIndex = 0\<rparr> \<and>
   \<not> validPosition trailingGapBook (position (nextWord (loadBook newEngine trailingGapBook)))"
  by (simp add: newEngine_def loadBook_def pause_def setStatus_def notifyWordChange_def
      nextWord_def advance_def js_at_def validPosition_def
      trailingGapBook_def emptyChapter_def plainChapter_def
      oneWordParagraph_def someWord_def)

text \<open>
  Claim C1, amended: let the position be valid for the loaded book before the call.
  Then \<open>play\<close>, \<open>pause\<close>, \<open>restartParagraph\<close>, \<open>setPosition\<close> and \<open>setViewMode\<close> return
  with a valid position whatever the shape of the book; \<open>loadBook\<close>, \<open>nextWord\<close>,
  \<open>prevWord\<close>, \<open>goToChapter\<close>, \<open>nextChapter\<close> and \<open>prevChapter\<close> return normally
  with a position valid for the book loaded after the call when that book is
  non-degenerate (it has at least one chapter, every chapter has at least one
  paragraph and every paragraph at least one word).
\<close>

theorem operations_keep_position_valid:
  assumes b: "book s = Some b" and v: "validPosition b (position s)"
    and nd: "crossesContainers op \<longrightarrow> nonDegenerate (bookAfter b op)"
  shows "\<exists>s'. call s op = Inr s' \<and> book s' = Some (bookAfter b op) \<and>
           validPosition (bookAfter b op) (position s')"
proof (cases op)
  case (LoadBook b')
  with nd show ?thesis by (simp add: bookAfter_def loadBook_valid)
next
  case Play
  with b v show ?thesis by (simp add: bookAfter_def play_keeps)
next
  case Pause
  with b v show ?thesis by (simp add: bookAfter_def pause_keeps)
next
  case NextWord
  with nd have "nonDegenerate b" by (simp add: bookAfter_def)
  with b v have "book (advance s) = Some b \<and> validPosition b (position (advance s))"
    by (intro advance_valid)
  with NextWord b show ?thesis
    by (simp add: bookAfter_def nextWord_def notifyWordChange_keeps)
next
  case PrevWord
  with nd have "nonDegenerate b" by (simp add: bookAfter_def)
  with b v obtain s' where "retreat s = Inr s'" "book s' = Some b"
    "validPosition b (position s')" using retreat_valid by blast
  with PrevWord b show ?thesis
    by (simp add: bookAfter_def prevWord_def notifyWordChange_keeps)
next
  case RestartParagraph
  with restartParagraph_valid [OF b v] show ?thesis by (simp add: bookAfter_def)
next
  case (GoToChapter i)
  with nd have "nonDegenerate b" by (simp add: bookAfter_def)
  with GoToChapter goToChapter_valid [OF b v] show ?thesis by (simp add: bookAfter_def)
next
  case NextChapter
  with nd have "nonDegenerate b" by (simp add: bookAfter_def)
  with NextChapter goToChapter_valid [OF b v] b v show ?thesis
    by (simp add: bookAfter_def nextChapter_def Let_def)
next
  case PrevChapter
  with nd have "nonDegenerate b" by (simp add: bookAfter_def)
  with PrevChapter goToChapter_valid [OF b v] b v show ?thesis
    by (simp add: bookAfter_def prevChapter_def Let_def)
next
  case (SetPosition pos)
  with setPosition_valid [OF b v] show ?thesis by (simp add: bookAfter_def)
next
  case (SetViewMode m)
  with b v show ?thesis by (simp add: bookAfter_def setViewMode_keeps)
qed


theorem operations_keep_position_valid_witness:
  "book (loadBook newEngine storyBook) = Some storyBook \<and>
   validPosition storyBook (position (loadBook newEngine storyBook)) \<and>
   crossesContainers NextWord \<and> nonDegenerate (bookAfter storyBook NextWord) \<and>
   (\<exists>s'. call (loadBook newEngine storyBook) NextWord = Inr s' \<and>
      book s' = Some (bookAfter storyBook NextWord) \<and>
      validPosition (bookAfter storyBook NextWord) (position s'))"
  using operations_keep_position_valid [of "loadBook newEngine storyBook" storyBook NextWord]
  by (simp add: loadBook_def setStatus_keeps notifyWordChange_keeps pause_keeps
      validPosition_def nonDegenerate_def bookAfter_def
      storyBook_def openingChapter_def plainChapter_def
      twoWordParagraph_def oneWordParagraph_def someWord_def)

section \<open>Engine: retreating into an empty chapter\<close>

text \<open>
  Claim C3, evaluated on the code: with \<open>gapBook\<close> loaded and the valid position
  \<open>{1, 0, 0}\<close>, \<open>prevWord\<close> crosses into chapter \<open>0\<close>, which has no paragraph; \<open>retreat\<close>
  reads \<open>newChapter.paragraphs[0]\<close>, gets \<open>undefined\<close>, and the read of its \<open>words\<close>
  throws.
\<close>

theorem prevWord_throws_before_empty_chapter:
  "book (goToChapter (loadBook newEngine gapBook) 1) = Some gapBook \<and>
   position (goToChapter (loadBook newEngine gapBook) 1)
     = \<lparr>chapterIndex = 1, paragraphIndex = 0, wordIndex = 0\<rparr> \<and>
   validPosition gapBook \<lparr>chapterIndex = 1, paragraphIndex = 0, wordIndex = 0\<rparr> \<and>
   prevWord (goToChapter (loadBook newEngine gapBook) 1) = Inl TypeError"
  by (simp add: newEngine_def loadBook_def goToChapter_def prevWord_def retreat_def pause_def
      setStatus_def notifyWordChange_def js_at_def validPosition_def
      gapBook_def emptyChapter_def plainChapter_def
      oneWordParagraph_def someWord_def)

section \<open>Engine: rejected and unguarded requests\<close>

text \<open>
  Claim C6: with a book loaded, \<open>setPosition\<close> called with a position that has any
  component out of range returns the engine unchanged: no field is updated and the
  list of delivered notifications is the same.
\<close>

theorem setPosition_rejects_invalid:
  "book s = Some b \<Longrightarrow> \<not> validPosition b pos \<Longrightarrow> setPosition s pos = s"
  by (auto simp: setPosition_def validPosition_def Let_def)

theorem setPosition_rejects_invalid_witness:
  "book (loadBook newEngine storyBook) = Some storyBook \<and>
   \<not> validPosition storyBook \<lparr>chapterIndex = 1, paragraphIndex = 0, wordIndex = 1\<rparr> \<and>
   setPosition (loadBook newEngine storyBook)
     \<lparr>chapterIndex = 1, paragraphIndex = 0, wordIndex = 1\<rparr> = loadBook newEngine storyBook"
  using setPosition_rejects_invalid [of "loadBook newEngine storyBook" storyBook
      "\<lparr>chapterIndex = 1, paragraphIndex = 0, wordIndex = 1\<rparr>"]
  by (simp add: loadBook_def setStatus_keeps notifyWordChange_keeps pause_keeps validPosition_def
      storyBook_def openingChapter_def plainChapter_def
      twoWordParagraph_def oneWordParagraph_def someWord_def)

text \<open>
  Claim C7, evaluated on the code: on a new engine (status idle, no book)
  \<open>restartParagraph\<close> delivers a word-change notification carrying \<open>null\<close>; the other
  four navigation requests return the engine unchanged.
\<close>

theorem restartParagraph_notifies_without_book:
  "book newEngine = None \<and> status newEngine = Idle \<and>
   restartParagraph newEngine = newEngine\<lparr>emitted := [WordChange None]\<rparr> \<and>
   nextWord newEngine = newEngine \<and> prevWord newEngine = Inr newEngine \<and>
   goToChapter newEngine i = newEngine \<and> setPosition newEngine pos = newEngine"
  by (simp add: newEngine_def restartParagraph_def notifyWordChange_def getCurrentWordInfo_def
      nextWord_def prevWord_def goToChapter_def setPosition_def)

section \<open>Engine: the scheduled continuation\<close>

lemma pause_cancels:
  "timerId s = Some t \<Longrightarrow> timerId (pause s) = None \<and> t \<notin> timeouts (pause s)"
  by (simp add: pause_def Let_def setStatus_keeps)

lemma pause_status: "status s = Playing \<Longrightarrow> status (pause s) = Paused"
  by (simp add: pause_def Let_def setStatus_keeps split: option.splits)

lemma retreat_keeps_timer:
  "retreat s = Inr s' \<Longrightarrow> timerId s' = timerId s \<and> timeouts s' = timeouts s"
  by (auto simp: retreat_def Let_def split: option.splits if_splits)

lemma prevWord_keeps_timer:
  "prevWord s = Inr s' \<Longrightarrow> timerId s' = timerId s \<and> timeouts s' = timeouts s"
  by (auto simp: prevWord_def notifyWordChange_keeps split: option.splits sum.splits
      dest: retreat_keeps_timer)

lemma restartParagraph_keeps_timer:
  "timerId (restartParagraph s) = timerId s \<and> timeouts (restartParagraph s) = timeouts s"
  by (simp add: restartParagraph_def notifyWordChange_keeps)

lemma goToChapter_keeps_timer:
  "timerId (goToChapter s i) = timerId s \<and> timeouts (goToChapter s i) = timeouts s"
  by (simp add: goToChapter_def notifyWordChange_keeps split: option.splits)

lemma setPosition_keeps_timer:
  "timerId (setPosition s pos) = timerId s \<and> timeouts (setPosition s pos) = timeouts s"
  by (simp add: setPosition_def Let_def notifyWordChange_keeps split: option.splits)

lemma atEndOfBook_iff:
  "atEndOfBook b pos \<longleftrightarrow>
     0 \<le> chapterIndex pos \<and> chapterIndex pos < int (length (chapters b)) \<and>
     \<not> chapterIndex pos + 1 < int (length (chapters b)) \<and>
     0 \<le> paragraphIndex pos \<and>
     paragraphIndex pos < int (length (paragraphs (chapters b ! nat (chapterIndex pos)))) \<and>
     \<not> paragraphIndex pos + 1
         < int (length (paragraphs (chapters b ! nat (chapterIndex pos)))) \<and>
     \<not> wordIndex pos + 1 < int (length (words
        (paragraphs (chapters b ! nat (chapterIndex pos)) ! nat (paragraphIndex pos))))"
  unfolding atEndOfBook_def by linarith

lemma advance_at_end:
  "book s = Some b \<Longrightarrow> atEndOfBook b (position s) \<Longrightarrow> advance s = pause s"
  by (simp add: advance_def js_at_def atEndOfBook_iff)

lemma advance_before_end:
  "book s = Some b \<Longrightarrow> \<not> atEndOfBook b (position s) \<Longrightarrow>
   timerId (advance s) = timerId s \<and> timeouts (advance s) = timeouts s"
  by (auto simp: advance_def js_at_def atEndOfBook_iff)

lemma nextWord_at_end:
  assumes "book s = Some b" and "atEndOfBook b (position s)"
    and "status s = Playing" and "timerId s = Some t"
  shows "timerId (nextWord s) = None \<and> t \<notin> timeouts (nextWord s) \<and>
         status (nextWord s) = Paused \<and> position (nextWord s) = position s"
proof -
  have "nextWord s = notifyWordChange (pause s)"
    using assms(1,2) by (simp add: nextWord_def advance_at_end)
  with pause_cancels [OF assms(4)] pause_status [OF assms(3)] show ?thesis
    by (simp add: notifyWordChange_keeps pause_keeps)
qed

lemma nextWord_before_end:
  assumes "\<forall>b. book s = Some b \<longrightarrow> \<not> atEndOfBook b (position s)"
  shows "timerId (nextWord s) = timerId s \<and> timeouts (nextWord s) = timeouts s"
proof (cases "book s")
  case None
  then show ?thesis by (simp add: nextWord_def)
next
  case (Some b)
  with assms have "\<not> atEndOfBook b (position s)" by simp
  with Some advance_before_end [of s b] show ?thesis
    by (simp add: nextWord_def notifyWordChange_keeps)
qed

text \<open>
  Claim C2 as stated fails: \<open>playingStory\<close> is playing with the continuation of handle
  \<open>1\<close> pending; \<open>nextWord\<close> moves the position and leaves that continuation pending,
  and when it fires it advances the position once more.
\<close>

theorem nextWord_leaves_continuation_pending:
  "status playingStory = Playing \<and> timerId playingStory = Some 1 \<and>
   1 \<in> timeouts playingStory \<and>
   position playingStory = \<lparr>chapterIndex = 0, paragraphIndex = 0, wordIndex = 0\<rparr> \<and>
   call playingStory NextWord = Inr (nextWord playingStory) \<and>
   position (nextWord playingStory)
     = \<lparr>chapterIndex = 0, paragraphIndex = 0, wordIndex = 1\<rparr> \<and>
   timerId (nextWord playingStory) = Some 1 \<and> 1 \<in> timeouts (nextWord playingStory) \<and>
   position (timerFired (nextWord playingStory) 1)
     = \<lparr>chapterIndex = 1, paragraphIndex = 0, wordIndex = 0\<rparr>"
  by (simp add: playingStory_def timerFired_def newEngine_def loadBook_def play_def pause_def
      setStatus_def notifyWordChange_def scheduleNext_def getCurrentWord_def nextWord_def
      advance_def js_at_def
      storyBook_def openingChapter_def plainChapter_def
      twoWordParagraph_def oneWordParagraph_def someWord_def)

text \<open>
  Claim C2, amended: whenever the engine is playing with a pending continuation,
  \<open>pause\<close> cancels it (afterwards the handle is cleared and the continuation is no
  longer pending). \<open>prevWord\<close>, \<open>restartParagraph\<close>, \<open>goToChapter\<close> and \<open>setPosition\<close>
  leave it pending. \<open>nextWord\<close> leaves it pending whenever the position is not at the
  end of the book; at the end of the book it cancels the continuation, pauses the
  engine and leaves the position where it was.
\<close>

theorem pause_cancels_navigation_does_not:
  assumes playing: "status s = Playing" and handle: "timerId s = Some t"
    and pending: "t \<in> timeouts s"
  shows "(timerId (pause s) = None \<and> t \<notin> timeouts (pause s)) \<and>
         (\<forall>s'. prevWord s = Inr s' \<longrightarrow> timerId s' = Some t \<and> t \<in> timeouts s') \<and>
         (timerId (restartParagraph s) = Some t \<and> t \<in> timeouts (restartParagraph s)) \<and>
         (timerId (goToChapter s i) = Some t \<and> t \<in> timeouts (goToChapter s i)) \<and>
         (timerId (setPosition s pos) = Some t \<and> t \<in> timeouts (setPosition s pos)) \<and>
         ((\<forall>b. book s = Some b \<longrightarrow> \<not> atEndOfBook b (position s)) \<longrightarrow>
            timerId (nextWord s) = Some t \<and> t \<in> timeouts (nextWord s)) \<and>
         (\<forall>b. book s = Some b \<longrightarrow> atEndOfBook b (position s) \<longrightarrow>
            timerId (nextWord s) = None \<and> t \<notin> timeouts (nextWord s) \<and>
            status (nextWord s) = Paused \<and> position (nextWord s) = position s)"
proof -
  have p: "timerId (pause s) = None \<and> t \<notin> timeouts (pause s)"
    using handle by (rule pause_cancels)
  have prev: "\<forall>s'. prevWord s = Inr s' \<longrightarrow> timerId s' = Some t \<and> t \<in> timeouts s'"
    using handle pending by (auto dest: prevWord_keeps_timer)
  have restart: "timerId (restartParagraph s) = Some t \<and> t \<in> timeouts (restartParagraph s)"
    using handle pending by (simp add: restartParagraph_keeps_timer)
  have goto: "timerId (goToChapter s i) = Some t \<and> t \<in> timeouts (goToChapter s i)"
    using handle pending by (simp add: goToChapter_keeps_timer)
  have setp: "timerId (setPosition s pos) = Some t \<and> t \<in> timeouts (setPosition s pos)"
    using handle pending by (simp add: setPosition_keeps_timer)
  have before: "(\<forall>b. book s = Some b \<longrightarrow> \<not> atEndOfBook b (position s)) \<longrightarrow>
      timerId (nextWord s) = Some t \<and> t \<in> timeouts (nextWord s)"
    using handle pending by (auto dest: nextWord_before_end)
  have at_end: "\<forall>b. book s = Some b \<longrightarrow> atEndOfBook b (position s) \<longrightarrow>
      timerId (nextWord s) = None \<and> t \<notin> timeouts (nextWord s) \<and>
      status (nextWord s) = Paused \<and> position (nextWord s) = position s"
    using playing handle by (blast dest: nextWord_at_end)
  from p prev restart goto setp before at_end show ?thesis by blast
qed

theorem pause_cancels_navigation_does_not_witness:
  "status playingStory = Playing \<and> timerId playingStory = Some 1 \<and>
   1 \<in> timeouts playingStory \<and> book playingStory = Some storyBook \<and>
   \<not> atEndOfBook storyBook (position playingStory) \<and>
   timerId (pause playingStory) = None \<and> 1 \<notin> timeouts (pause playingStory) \<and>
   timerId (restartParagraph playingStory) = Some 1 \<and>
   timerId (nextWord playingStory) = Some 1 \<and> 1 \<in> timeouts (nextWord playingStory) \<and>
   status playingLastWord = Playing \<and> timerId playingLastWord = Some 1 \<and>
   1 \<in> timeouts playingLastWord \<and> book playingLastWord = Some storyBook \<and>
   atEndOfBook storyBook (position playingLastWord) \<and>
   timerId (nextWord playingLastWord) = None \<and> 1 \<notin> timeouts (nextWord playingLastWord) \<and>
   status (nextWord playingLastWord) = Paused \<and>
   position (nextWord playingLastWord) = position playingLastWord"
proof -
  have first: "status playingStory = Playing" "timerId playingStory = Some 1"
    "1 \<in> timeouts playingStory" "book playingStory = Some storyBook"
    "position playingStory = \<lparr>chapterIndex = 0, paragraphIndex = 0, wordIndex = 0\<rparr>"
    by (simp_all add: playingStory_def newEngine_def loadBook_def play_def pause_def
        setStatus_def notifyWordChange_def scheduleNext_def getCurrentWord_def js_at_def
        storyBook_def openingChapter_def plainChapter_def
        twoWordParagraph_def oneWordParagraph_def someWord_def)
  have last: "status playingLastWord = Playing" "timerId playingLastWord = Some 1"
    "1 \<in> timeouts playingLastWord" "book playingLastWord = Some storyBook"
    "position playingLastWord = \<lparr>chapterIndex = 1, paragraphIndex = 0, wordIndex = 0\<rparr>"
    by (simp_all add: playingLastWord_def newEngine_def loadBook_def play_def pause_def
        setStatus_def notifyWordChange_def scheduleNext_def getCurrentWord_def
        goToChapter_def js_at_def
        storyBook_def openingChapter_def plainChapter_def
        twoWordParagraph_def oneWordParagraph_def someWord_def)
  have before: "\<not> atEndOfBook storyBook
      \<lparr>chapterIndex = 0, paragraphIndex = 0, wordIndex = 0\<rparr>"
    by (simp add: atEndOfBook_def storyBook_def)
  have at_end: "atEndOfBook storyBook
      \<lparr>chapterIndex = 1, paragraphIndex = 0, wordIndex = 0\<rparr>"
    by (simp add: atEndOfBook_def storyBook_def plainChapter_def oneWordParagraph_def)
  from pause_cancels_navigation_does_not [OF first(1,2,3)]
    pause_cancels_navigation_does_not [OF last(1,2,3)]
    first last before at_end
  show ?thesis by simp
qed

end
